theory Spec2Isabelle
  imports Main "HOL-Library.Multiset"
begin

section \<open>The task runner: data model\<close>

text \<open>
  The package \<open>runner\<close> (file \<open>runner.go\<close>) executes a slice of tasks, either
  sequentially (\<open>Run\<close>) or dispatched among goroutines (\<open>RunConc\<close>).

  Go's \<open>int\<close> is modelled by \<open>int\<close>. No overflow can occur in the arithmetic of this
  file: every computed value is a product, sum or quotient bounded by twice the length of
  the task slice, and the requested number of runners \<open>n\<close> is only compared.

  A value of type \<open>interface{}\<close> is modelled by \<open>'v option\<close>, where \<open>None\<close> is the
  nil interface (the zero value that \<open>make([]interface{}, l)\<close> fills a slice with).

  Tasks and hooks are closures supplied by the caller. They may read and write caller
  state, which is modelled by a type \<open>'s\<close> (the world): a task is a function from the
  world to its returned value and the new world, a hook a world transformer.

  The on-finish hook is handed the result slice itself, the one that \<open>Run\<close> and
  \<open>RunConc\<close> return afterwards, so what it writes into the slice reaches the caller. It
  is modelled as a function that yields, with the new world, the contents it leaves in
  the slice.
\<close>

type_synonym 'v iface = "'v option"

type_synonym ('s, 'v) Task = "'s \<Rightarrow> 'v iface \<times> 's"

record ('s, 'v) Program =
  Tasks :: "('s, 'v) Task list"
  Interval :: int
  PreHook :: "(int \<Rightarrow> 's \<Rightarrow> 's) option"
  PostHook :: "(int \<Rightarrow> 'v iface \<Rightarrow> 's \<Rightarrow> 's) option"
  OnStart :: "('s \<Rightarrow> 's) option"
  OnFinish :: "('v iface list \<Rightarrow> 's \<Rightarrow> 'v iface list \<times> 's) option"
  isConc :: bool

record 'v trackedResult =
  tr_id :: int
  tr_res :: "'v iface list"

text \<open>Run-time panics of the Go runtime that the code of this package can reach.\<close>

datatype panic = DivideByZero | SliceBounds

text \<open>
  What a run does beyond returning is recorded in a trace of events: every hook call
  with its arguments, every task call (with the loop index of the core loop and the
  value the task returned), and every call of \<open>time.Sleep\<close> with its duration.
\<close>

datatype 'v event =
    EvOnStart
  | EvPreHook int
  | EvTask nat "'v iface"
  | EvPostHook int "'v iface"
  | EvSleep int
  | EvOnFinish "'v iface list"

text \<open>
  The memory a run works on: the \<open>Program\<close> that the receiver \<open>p\<close> points to, the
  caller's world, and the trace.
\<close>

record ('s, 'v) mem =
  prog :: "('s, 'v) Program"
  world :: 's
  trace :: "'v event list"

definition log_event :: "'v event \<Rightarrow> ('s, 'v) mem \<Rightarrow> ('s, 'v) mem" where
  "log_event e m = m\<lparr>trace := trace m @ [e]\<rparr>"

section \<open>Worker-count normalisation and partitioning\<close>

text \<open>\<open>safeRunnerQuantity\<close>, lines 182 to 190.\<close>

definition safeRunnerQuantity :: "int \<Rightarrow> int \<Rightarrow> int" where
  "safeRunnerQuantity runners len =
     (if runners > len then len
      else if runners < 1 then 1
      else runners)"

text \<open>
  Go's integer division: it panics on a zero divisor and truncates towards zero.
\<close>

definition go_div :: "int \<Rightarrow> int \<Rightarrow> panic + int" where
  "go_div a b =
     (if b = 0 then Inl DivideByZero
      else Inr (sgn a * sgn b * (\<bar>a\<bar> div \<bar>b\<bar>)))"

text \<open>
  The slice expression \<open>tasks[start:end]\<close>. Go panics unless
  \<open>0 \<le> start \<le> end \<le> cap(tasks)\<close>; the model takes the length for the capacity.
\<close>

definition slice :: "'a list \<Rightarrow> int \<Rightarrow> int \<Rightarrow> panic + 'a list" where
  "slice xs start endi =
     (if 0 \<le> start \<and> start \<le> endi \<and> endi \<le> int (length xs)
      then Inr (take (nat endi - nat start) (drop (nat start) xs))
      else Inl SliceBounds)"

text \<open>
  The bounds of the zone of runner \<open>i\<close>, lines 108 to 114 of \<open>RunConc\<close>.
\<close>

definition shard_bounds :: "int \<Rightarrow> int \<Rightarrow> int \<Rightarrow> int \<Rightarrow> int \<times> int" where
  "shard_bounds len runners span i =
     (let isLastRunner = (i = runners - 1);
          start = i * span;
          endi = start + span;
          endi = (if isLastRunner then len else endi)
      in (start, endi))"

text \<open>
  The zones of all runners for a request of \<open>n\<close> runners over \<open>len\<close> tasks, in the order
  of the dispatch loop; \<open>None\<close> when the computation of the span panics.
\<close>

definition shards :: "int \<Rightarrow> int \<Rightarrow> (int \<times> int) list option" where
  "shards n len =
     (let runners = safeRunnerQuantity n len in
      case go_div len runners of
        Inl e \<Rightarrow> None
      | Inr span \<Rightarrow> Some (map (\<lambda>i. shard_bounds len runners span (int i)) [0..<nat runners]))"

section \<open>Hook calls, task calls and pauses\<close>

text \<open>
  Each of the following is one call made by the runner. A hook that is \<open>nil\<close>
  (\<open>None\<close>) is not called and leaves no event.
\<close>

definition call_OnStart :: "('s, 'v) mem \<Rightarrow> ('s, 'v) mem" where
  "call_OnStart m =
     (case OnStart (prog m) of
        None \<Rightarrow> m
      | Some h \<Rightarrow> log_event EvOnStart (m\<lparr>world := h (world m)\<rparr>))"

text \<open>
  A callee that is handed a slice can overwrite its elements, not change the length that
  the caller sees: of the contents \<open>new\<close> that the callee leaves, the caller's slice
  \<open>old\<close> shows as many elements as it had.
\<close>

definition keep_length :: "'a list \<Rightarrow> 'a list \<Rightarrow> 'a list" where
  "keep_length old new = take (length old) new @ drop (length new) old"

text \<open>
  The call of the on-finish hook (lines 55 to 58 and 94 to 97). It yields the contents of
  \<open>results\<close> after the call; the event records the contents the hook received.
\<close>

definition call_OnFinish ::
  "'v iface list \<Rightarrow> ('s, 'v) mem \<Rightarrow> 'v iface list \<times> ('s, 'v) mem" where
  "call_OnFinish results m =
     (case OnFinish (prog m) of
        None \<Rightarrow> (results, m)
      | Some h \<Rightarrow>
          (case h results (world m) of
             (written, w) \<Rightarrow>
               (keep_length results written,
                log_event (EvOnFinish results) (m\<lparr>world := w\<rparr>))))"

definition call_PreHook :: "int \<Rightarrow> ('s, 'v) mem \<Rightarrow> ('s, 'v) mem" where
  "call_PreHook k m =
     (case PreHook (prog m) of
        None \<Rightarrow> m
      | Some h \<Rightarrow> log_event (EvPreHook k) (m\<lparr>world := h k (world m)\<rparr>))"

definition call_PostHook :: "int \<Rightarrow> 'v iface \<Rightarrow> ('s, 'v) mem \<Rightarrow> ('s, 'v) mem" where
  "call_PostHook k v m =
     (case PostHook (prog m) of
        None \<Rightarrow> m
      | Some h \<Rightarrow> log_event (EvPostHook k v) (m\<lparr>world := h k v (world m)\<rparr>))"

definition call_Task :: "('s, 'v) Task \<Rightarrow> nat \<Rightarrow> ('s, 'v) mem \<Rightarrow> 'v iface \<times> ('s, 'v) mem" where
  "call_Task f i m =
     (case f (world m) of (v, w) \<Rightarrow> (v, log_event (EvTask i v) (m\<lparr>world := w\<rparr>)))"

text \<open>Lines 161 to 163: the pause after a task that is not the last of its slice.\<close>

definition sleep_between :: "bool \<Rightarrow> ('s, 'v) mem \<Rightarrow> ('s, 'v) mem" where
  "sleep_between isLast m =
     (if Interval (prog m) > 0 \<and> \<not> isLast
      then log_event (EvSleep (Interval (prog m))) m
      else m)"

section \<open>The core loop \<open>run\<close> and the sequential entry point \<open>Run\<close>\<close>

text \<open>
  The \<open>range\<close> loop of \<open>run\<close> (lines 147 to 164), by recursion on the index \<open>i\<close>. The
  assignment \<open>results[i] = v\<close> is in range, since \<open>results\<close> has the length of
  \<open>tasks\<close> (lemma \<open>run_loop_props\<close> below).
\<close>

function run_loop ::
  "('s, 'v) Task list \<Rightarrow> int \<Rightarrow> nat \<Rightarrow> nat \<Rightarrow> 'v iface list \<Rightarrow> ('s, 'v) mem
     \<Rightarrow> 'v iface list \<times> ('s, 'v) mem" where
  "run_loop tasks offset l i results m =
     (if i < length tasks then
        (let f = tasks ! i;
             isLast = (int i = int l - 1);
             m1 = call_PreHook (int i + offset) m;
             (v, m2) = call_Task f i m1;
             results' = results[i := v];
             m3 = call_PostHook (int i + offset) v m2;
             m4 = sleep_between isLast m3
         in run_loop tasks offset l (i + 1) results' m4)
      else (results, m))"
  by pat_completeness auto
termination
  by (relation "measure (\<lambda>(tasks, offset, l, i, results, m). length tasks - i)") auto

declare run_loop.simps [simp del]

definition run ::
  "('s, 'v) Task list \<Rightarrow> int \<Rightarrow> ('s, 'v) mem \<Rightarrow> 'v iface list \<times> ('s, 'v) mem" where
  "run tasks offset m =
     (let l = length tasks;
          results = replicate l None
      in run_loop tasks offset l 0 results m)"

text \<open>
  \<open>Run\<close>, lines 49 to 63. The deferred closure calls \<open>OnFinish\<close> with the named result
  once \<open>run\<close> has returned; \<open>Run\<close> returns the named result as the hook leaves it.
\<close>

definition Run :: "('s, 'v) mem \<Rightarrow> 'v iface list \<times> ('s, 'v) mem" where
  "Run m =
     (let m1 = call_OnStart m;
          (results, m2) = run (Tasks (prog m1)) 0 m1;
          (results', m3) = call_OnFinish results m2
      in (results', m3))"

text \<open>\<open>concMode\<close>, lines 171 to 177: the only code that writes a field of the Program.\<close>

definition concMode :: "bool \<Rightarrow> ('s, 'v) mem \<Rightarrow> ('s, 'v) mem" where
  "concMode activate m =
     (if activate then m\<lparr>prog := (prog m)\<lparr>isConc := True\<rparr>\<rparr>
      else m\<lparr>prog := (prog m)\<lparr>isConc := False\<rparr>\<rparr>)"

section \<open>Goroutines\<close>

text \<open>
  In \<open>RunConc\<close> every runner executes \<open>p.run(part, i)\<close> in a goroutine of its own and
  sends the result, tagged with its id, on the channel \<open>rawPartial\<close>. The goroutines
  share the memory. To interleave them, the execution of \<open>run\<close> inside a goroutine is
  cut into its calls: the pre-hook call, the task call (with the store into
  \<open>results\<close>), the post-hook call, the pause (with the step to the next index), and at
  last the send. A call is one step: calls of different goroutines interleave in any
  order, and what two calls do to the world at the same time is not modelled. Each is
  the same call as in \<open>run_loop\<close>; lemma \<open>finish_one_run_loop\<close> shows that a
  goroutine running without interruption computes what \<open>run\<close> computes.
\<close>

datatype pc = AtPre | AtTask | AtPost | AtPause | AtSend | Exited

record ('s, 'v) goroutine =
  g_id :: int
  g_tasks :: "('s, 'v) Task list"
  g_offset :: int
  g_l :: nat
  g_results :: "'v iface list"
  g_i :: nat
  g_v :: "'v iface"
  g_pc :: pc

definition loop_head :: "('s, 'v) goroutine \<Rightarrow> ('s, 'v) goroutine" where
  "loop_head g = g\<lparr>g_pc := (if g_i g < length (g_tasks g) then AtPre else AtSend)\<rparr>"

text \<open>
  The goroutine started by \<open>go func(i int) { rawPartial <- trackedResult{i, p.run(part, i)} }(i)\<close>
  is \<open>spawn i part i\<close>: the last argument is the offset handed to \<open>run\<close>.
\<close>

definition spawn :: "int \<Rightarrow> ('s, 'v) Task list \<Rightarrow> int \<Rightarrow> ('s, 'v) goroutine" where
  "spawn rid tasks offset =
     loop_head \<lparr>g_id = rid, g_tasks = tasks, g_offset = offset, g_l = length tasks,
       g_results = replicate (length tasks) None, g_i = 0, g_v = None, g_pc = AtPre\<rparr>"

definition g_step ::
  "('s, 'v) goroutine \<Rightarrow> ('s, 'v) mem
     \<Rightarrow> ('s, 'v) goroutine \<times> ('s, 'v) mem \<times> 'v trackedResult option" where
  "g_step g m =
     (case g_pc g of
        AtPre \<Rightarrow> (g\<lparr>g_pc := AtTask\<rparr>, call_PreHook (int (g_i g) + g_offset g) m, None)
      | AtTask \<Rightarrow>
          (case call_Task (g_tasks g ! g_i g) (g_i g) m of
             (v, m') \<Rightarrow>
               (g\<lparr>g_results := (g_results g)[g_i g := v], g_v := v, g_pc := AtPost\<rparr>, m', None))
      | AtPost \<Rightarrow>
          (g\<lparr>g_pc := AtPause\<rparr>, call_PostHook (int (g_i g) + g_offset g) (g_v g) m, None)
      | AtPause \<Rightarrow>
          (loop_head (g\<lparr>g_i := g_i g + 1\<rparr>),
           sleep_between (int (g_i g) = int (g_l g) - 1) m, None)
      | AtSend \<Rightarrow> (g\<lparr>g_pc := Exited\<rparr>, m, Some \<lparr>tr_id = g_id g, tr_res = g_results g\<rparr>)
      | Exited \<Rightarrow> (g, m, None))"

text \<open>
  The state of the concurrent part of \<open>RunConc\<close>: the goroutines, the contents of the
  buffered channel in order of arrival, and the shared memory.
\<close>

record ('s, 'v) conc =
  gs :: "('s, 'v) goroutine list"
  rawPartial :: "'v trackedResult list"
  shared :: "('s, 'v) mem"

text \<open>The scheduler lets goroutine \<open>k\<close> make one step (none if there is no such goroutine).\<close>

definition sched_step :: "nat \<Rightarrow> ('s, 'v) conc \<Rightarrow> ('s, 'v) conc" where
  "sched_step k c =
     (if k < length (gs c) then
        (case g_step (gs c ! k) (shared c) of
           (g', m', sent) \<Rightarrow>
             \<lparr>gs = (gs c)[k := g'],
              rawPartial = rawPartial c @ (case sent of None \<Rightarrow> [] | Some r \<Rightarrow> [r]),
              shared = m'\<rparr>)
      else c)"

text \<open>The number of steps a goroutine has left.\<close>

definition steps_left :: "('s, 'v) goroutine \<Rightarrow> nat" where
  "steps_left g =
     (case g_pc g of
        AtPre \<Rightarrow> 4 * (length (g_tasks g) - g_i g) + 1
      | AtTask \<Rightarrow> 4 * (length (g_tasks g) - g_i g)
      | AtPost \<Rightarrow> 4 * (length (g_tasks g) - g_i g) - 1
      | AtPause \<Rightarrow> 4 * (length (g_tasks g) - g_i g) - 2
      | AtSend \<Rightarrow> 1
      | Exited \<Rightarrow> 0)"

text \<open>
  An execution of the goroutines is given by a schedule, the list of the goroutines
  that step, in order. The Go scheduler lets every goroutine run to its end, and
  \<open>RunConc\<close> waits for all of them: after the schedule, \<open>finish\<close> lets each goroutine
  make the steps it has left. Every interleaving of the goroutines' steps is the
  execution of some schedule.
\<close>

definition finish_one :: "nat \<Rightarrow> ('s, 'v) conc \<Rightarrow> ('s, 'v) conc" where
  "finish_one k c = (sched_step k ^^ steps_left (gs c ! k)) c"

definition finish :: "('s, 'v) conc \<Rightarrow> ('s, 'v) conc" where
  "finish c = fold finish_one [0..<length (gs c)] c"

definition run_goroutines :: "nat list \<Rightarrow> ('s, 'v) conc \<Rightarrow> ('s, 'v) conc" where
  "run_goroutines sched c = finish (fold sched_step sched c)"

section \<open>The concurrent entry point \<open>RunConc\<close>\<close>

text \<open>
  The dispatch loop, lines 107 to 122. It has no effect on the memory but starting
  goroutines, so it is modelled as starting them all before any of them steps.
\<close>

function dispatch ::
  "('s, 'v) Task list \<Rightarrow> int \<Rightarrow> int \<Rightarrow> int \<Rightarrow> int \<Rightarrow> ('s, 'v) goroutine list
     \<Rightarrow> panic + ('s, 'v) goroutine list" where
  "dispatch tasks len runners span i goroutines =
     (if i < runners then
        (case shard_bounds len runners span i of
           (start, endi) \<Rightarrow>
             (case slice tasks start endi of
                Inl e \<Rightarrow> Inl e
              | Inr part \<Rightarrow>
                  dispatch tasks len runners span (i + 1) (goroutines @ [spawn i part i])))
      else Inr goroutines)"
  by pat_completeness auto
termination
  by (relation "measure (\<lambda>(tasks, len, runners, span, i, goroutines). nat (runners - i))") auto

declare dispatch.simps [simp del]

text \<open>
  The body of \<open>RunConc\<close> between the \<open>defer\<close> statement and the return, lines 100 to
  140. It yields the panic, if any, the value of the named result \<open>results\<close> when the
  body is left (still nil at a panic), and the memory. The channel is made with a
  capacity of \<open>runners\<close>, which is positive once the division has passed, so no send
  blocks. The gather loop receives \<open>runners\<close> values in order of arrival (once the
  goroutines have run, exactly that many have arrived: lemma \<open>run_goroutines_chan\<close>);
  \<open>sort.SliceStable\<close> is the stable sort by id.
\<close>

definition RunConc_body ::
  "int \<Rightarrow> nat list \<Rightarrow> ('s, 'v) mem \<Rightarrow> panic option \<times> 'v iface list \<times> ('s, 'v) mem" where
  "RunConc_body n sched m =
     (let len = int (length (Tasks (prog m)));
          runners = safeRunnerQuantity n len
      in case go_div len runners of
           Inl e \<Rightarrow> (Some e, [], m)
         | Inr span \<Rightarrow>
             (case dispatch (Tasks (prog m)) len runners span 0 [] of
                Inl e \<Rightarrow> (Some e, [], m)
              | Inr goroutines \<Rightarrow>
                  (let c = run_goroutines sched \<lparr>gs = goroutines, rawPartial = [], shared = m\<rparr>;
                       rawResults = take (nat runners) (rawPartial c);
                       sorted = sort_key tr_id rawResults;
                       results = concat (map tr_res sorted)
                   in (None, results, shared c))))"

text \<open>
  \<open>RunConc\<close>, lines 84 to 141. The deferred closure runs when the body is left, also
  by a panic, and calls \<open>OnFinish\<close> with the named result; \<open>RunConc\<close> returns the named
  result as the hook leaves it.
\<close>

definition RunConc ::
  "int \<Rightarrow> nat list \<Rightarrow> ('s, 'v) mem \<Rightarrow> (panic + 'v iface list) \<times> ('s, 'v) mem" where
  "RunConc n sched m =
     (let m1 = call_OnStart m;
          (err, results, m2) = RunConc_body n sched m1;
          (results', m3) = call_OnFinish results m2
      in (case err of Some e \<Rightarrow> Inl e | None \<Rightarrow> Inr results', m3))"

section \<open>Notions used to state the properties\<close>

text \<open>
  A task is pure with value \<open>v\<close> when, in every world, it returns \<open>v\<close> and leaves the
  world as it is.
\<close>

definition returns :: "('s, 'v) Task \<Rightarrow> 'v iface \<Rightarrow> bool" where
  "returns t v = (\<forall>s. t s = (v, s))"

text \<open>
  The on-finish hook keeps the results when there is none or when, in every world, it
  leaves in the slice the contents it received.
\<close>

definition keeps_results :: "('s, 'v) Program \<Rightarrow> bool" where
  "keeps_results p =
     (case OnFinish p of None \<Rightarrow> True | Some h \<Rightarrow> (\<forall>r s. fst (h r s) = r))"

text \<open>One pass through the body of the core loop, at index \<open>i\<close>.\<close>

definition iteration ::
  "('s, 'v) Task list \<Rightarrow> int \<Rightarrow> nat \<Rightarrow> nat \<Rightarrow> ('s, 'v) mem \<Rightarrow> 'v iface \<times> ('s, 'v) mem" where
  "iteration tasks offset l i m =
     (case call_Task (tasks ! i) i (call_PreHook (int i + offset) m) of
        (v, m2) \<Rightarrow>
          (v, sleep_between (int i = int l - 1) (call_PostHook (int i + offset) v m2)))"

text \<open>
  The events that the pass at index \<open>i\<close> of a slice of \<open>l\<close> tasks is expected to leave
  when its task returns \<open>v\<close>: the pre-hook call, the task call, the post-hook call and
  the pause, in this order.
\<close>

definition iteration_events ::
  "('s, 'v) Program \<Rightarrow> int \<Rightarrow> nat \<Rightarrow> nat \<Rightarrow> 'v iface \<Rightarrow> 'v event list" where
  "iteration_events p offset l i v =
     (case PreHook p of None \<Rightarrow> [] | Some h \<Rightarrow> [EvPreHook (int i + offset)])
     @ [EvTask i v]
     @ (case PostHook p of None \<Rightarrow> [] | Some h \<Rightarrow> [EvPostHook (int i + offset) v])
     @ (if Interval p > 0 \<and> Suc i < l then [EvSleep (Interval p)] else [])"

fun is_pause :: "'v event \<Rightarrow> bool" where
  "is_pause (EvSleep d) = True"
| "is_pause e = False"


fun is_start_finish :: "'v event \<Rightarrow> bool" where
  "is_start_finish EvOnStart = True"
| "is_start_finish (EvOnFinish r) = True"
| "is_start_finish e = False"

text \<open>
  The worlds that the call recorded by an event can leave, when it is made in the world
  \<open>w\<close>: for the event of a hook call, the world that the configured hook, applied to the
  recorded arguments, makes of \<open>w\<close> (none when the hook is not configured); for the event
  of a task call, the world that a task of the program that returns the recorded value
  makes of \<open>w\<close>; for a pause, \<open>w\<close> itself, when the pause is the configured interval.
\<close>

definition event_worlds :: "('s, 'v) Program \<Rightarrow> 'v event \<Rightarrow> 's \<Rightarrow> 's list" where
  "event_worlds p e w =
     (case e of
        EvOnStart \<Rightarrow> (case OnStart p of None \<Rightarrow> [] | Some h \<Rightarrow> [h w])
      | EvPreHook k \<Rightarrow> (case PreHook p of None \<Rightarrow> [] | Some h \<Rightarrow> [h k w])
      | EvTask i v \<Rightarrow> map (\<lambda>t. snd (t w)) (filter (\<lambda>t. fst (t w) = v) (Tasks p))
      | EvPostHook k v \<Rightarrow> (case PostHook p of None \<Rightarrow> [] | Some h \<Rightarrow> [h k v w])
      | EvSleep d \<Rightarrow> (if d = Interval p \<and> 0 < d then [w] else [])
      | EvOnFinish r \<Rightarrow> (case OnFinish p of None \<Rightarrow> [] | Some h \<Rightarrow> [snd (h r w)]))"

text \<open>
  A list of events explains the passage from a world to another when the calls that it
  records, made one after the other in its order, lead from the one to the other. When
  the events that a run has appended to the trace explain the passage from the caller's
  world before the run to the world after it, every recorded call has been made, with
  the recorded arguments, and nothing else has changed the world.
\<close>

fun explains :: "('s, 'v) Program \<Rightarrow> 'v event list \<Rightarrow> 's \<Rightarrow> 's \<Rightarrow> bool" where
  "explains p [] w w' = (w' = w)"
| "explains p (e # tr) w w' = list_ex (\<lambda>w1. explains p tr w1 w') (event_worlds p e w)"

text \<open>The cut points of the partition: zone \<open>i\<close> runs from cut \<open>i\<close> to cut \<open>i + 1\<close>.\<close>

definition cut :: "int \<Rightarrow> int \<Rightarrow> int \<Rightarrow> nat \<Rightarrow> nat" where
  "cut len runners span i = (if int i = runners then nat len else nat (int i * span))"

section \<open>Example programs\<close>

text \<open>
  The slice \<open>tasks(5)\<close> and the program \<open>example\<close> of the test file (the latter here
  with five tasks, and with hooks that count their calls in the world), and the memory at
  the start of a run.
\<close>

definition tasks5 :: "(nat, string) Task list" where
  "tasks5 = map (\<lambda>x s. (Some x, s)) [''task0'', ''task1'', ''task2'', ''task3'', ''task4'']"

definition example :: "(nat, string) Program" where
  "example =
     \<lparr>Tasks = tasks5, Interval = 1000000000,
      PreHook = Some (\<lambda>i s. Suc s), PostHook = Some (\<lambda>i v s. Suc s),
      OnStart = Some (\<lambda>s. Suc s), OnFinish = Some (\<lambda>v s. (v, Suc s)), isConc = False\<rparr>"

definition start_mem :: "('s, 'v) Program \<Rightarrow> 's \<Rightarrow> ('s, 'v) mem" where
  "start_mem p w = \<lparr>prog = p, world = w, trace = []\<rparr>"

section \<open>Notions used in the proofs\<close>

text \<open>
  A goroutine is well formed when \<open>results\<close> and \<open>l\<close> have the length of its tasks and,
  while it is inside the loop, its index is in range.
\<close>

definition wf_g :: "('s, 'v) goroutine \<Rightarrow> bool" where
  "wf_g g = (length (g_results g) = length (g_tasks g) \<and> g_l g = length (g_tasks g)
     \<and> (g_pc g = AtSend \<or> g_pc g = Exited \<or> g_i g < length (g_tasks g)))"

text \<open>The value a goroutine sends on the channel, and the part of it that no step changes.\<close>

definition sent_by :: "('s, 'v) goroutine \<Rightarrow> 'v trackedResult" where
  "sent_by g = \<lparr>tr_id = g_id g, tr_res = g_results g\<rparr>"

definition static :: "('s, 'v) goroutine \<Rightarrow> int \<times> ('s, 'v) Task list \<times> int \<times> nat" where
  "static g = (g_id g, g_tasks g, g_offset g, g_l g)"

definition all_wf :: "('s, 'v) conc \<Rightarrow> bool" where
  "all_wf c = list_all wf_g (gs c)"

text \<open>
  The channel holds, in order of arrival, what the goroutines that have exited have sent:
  one value for each of them.
\<close>

definition chan_inv :: "('s, 'v) conc \<Rightarrow> bool" where
  "chan_inv c = (\<exists>ord. distinct ord
     \<and> set ord = {k. k < length (gs c) \<and> g_pc (gs c ! k) = Exited}
     \<and> rawPartial c = map (\<lambda>k. sent_by (gs c ! k)) ord)"

text \<open>Predicates on the concurrent state that every step preserves.\<close>

definition exited :: "nat \<Rightarrow> ('s, 'v) conc \<Rightarrow> bool" where
  "exited k c = (k < length (gs c) \<and> g_pc (gs c ! k) = Exited)"

definition n_goroutines :: "nat \<Rightarrow> ('s, 'v) conc \<Rightarrow> bool" where
  "n_goroutines n c = (length (gs c) = n)"

text \<open>
  The tasks of zone \<open>k\<close>, and the state in which the dispatch loop leaves the goroutines.
\<close>

definition zone :: "'a list \<Rightarrow> int \<Rightarrow> int \<Rightarrow> int \<Rightarrow> nat \<Rightarrow> 'a list" where
  "zone xs len runners span k =
     take (cut len runners span (Suc k) - cut len runners span k)
       (drop (cut len runners span k) xs)"

definition start_conc ::
  "('s, 'v) Task list \<Rightarrow> int \<Rightarrow> ('s, 'v) mem \<Rightarrow> ('s, 'v) conc" where
  "start_conc tasks runners m =
     \<lparr>gs = map (\<lambda>k. spawn (int k)
                  (zone tasks (int (length tasks)) runners (int (length tasks) div runners) k)
                  (int k)) [0..<nat runners],
      rawPartial = [], shared = m\<rparr>"

definition statics :: "(int \<times> ('s, 'v) Task list \<times> int \<times> nat) list \<Rightarrow> ('s, 'v) conc \<Rightarrow> bool" where
  "statics S c = (map static (gs c) = S)"

text \<open>The events that one step of a goroutine appends to the trace.\<close>

definition step_events :: "('s, 'v) goroutine \<Rightarrow> ('s, 'v) mem \<Rightarrow> 'v event list" where
  "step_events g m =
     (case g_pc g of
        AtPre \<Rightarrow>
          (case PreHook (prog m) of None \<Rightarrow> [] | Some h \<Rightarrow> [EvPreHook (int (g_i g) + g_offset g)])
      | AtTask \<Rightarrow> [EvTask (g_i g) (fst ((g_tasks g ! g_i g) (world m)))]
      | AtPost \<Rightarrow>
          (case PostHook (prog m) of None \<Rightarrow> []
           | Some h \<Rightarrow> [EvPostHook (int (g_i g) + g_offset g) (g_v g)])
      | AtPause \<Rightarrow>
          (if Interval (prog m) > 0 \<and> int (g_i g) \<noteq> int (g_l g) - 1
           then [EvSleep (Interval (prog m))] else [])
      | AtSend \<Rightarrow> []
      | Exited \<Rightarrow> [])"

text \<open>
  The number of results a goroutine has stored. For pure tasks each stored result is the
  value of its task.
\<close>

definition known :: "('s, 'v) goroutine \<Rightarrow> nat" where
  "known g =
     (case g_pc g of
        AtPre \<Rightarrow> g_i g | AtTask \<Rightarrow> g_i g
      | AtPost \<Rightarrow> Suc (g_i g) | AtPause \<Rightarrow> Suc (g_i g)
      | AtSend \<Rightarrow> length (g_tasks g) | Exited \<Rightarrow> length (g_tasks g))"

definition pure_g :: "('s, 'v) goroutine \<Rightarrow> bool" where
  "pure_g g = (wf_g g
     \<and> (\<forall>j<length (g_tasks g). \<exists>v. returns (g_tasks g ! j) v)
     \<and> (\<forall>j<known g. returns (g_tasks g ! j) (g_results g ! j)))"

definition all_pure :: "('s, 'v) conc \<Rightarrow> bool" where
  "all_pure c = list_all pure_g (gs c)"

definition prog_is :: "('s, 'v) Program \<Rightarrow> ('s, 'v) conc \<Rightarrow> bool" where
  "prog_is p c = (prog (shared c) = p)"

text \<open>
  The indices that the pre-task hook and the post-task hook were called with, in the order
  of a trace.
\<close>

fun pre_arg :: "'v event \<Rightarrow> int list" where
  "pre_arg (EvPreHook k) = [k]"
| "pre_arg e = []"

fun post_arg :: "'v event \<Rightarrow> int list" where
  "post_arg (EvPostHook k v) = [k]"
| "post_arg e = []"

definition pre_args :: "'v event list \<Rightarrow> int list" where
  "pre_args tr = concat (map pre_arg tr)"

definition post_args :: "'v event list \<Rightarrow> int list" where
  "post_args tr = concat (map post_arg tr)"

text \<open>
  The index from which a goroutine still has pre-task (post-task) hook calls to make, and
  the arguments of these calls as a multiset.
\<close>

definition pre_from :: "('s, 'v) goroutine \<Rightarrow> nat" where
  "pre_from g =
     (case g_pc g of
        AtPre \<Rightarrow> g_i g | AtTask \<Rightarrow> Suc (g_i g)
      | AtPost \<Rightarrow> Suc (g_i g) | AtPause \<Rightarrow> Suc (g_i g)
      | AtSend \<Rightarrow> length (g_tasks g) | Exited \<Rightarrow> length (g_tasks g))"

definition post_from :: "('s, 'v) goroutine \<Rightarrow> nat" where
  "post_from g =
     (case g_pc g of
        AtPre \<Rightarrow> g_i g | AtTask \<Rightarrow> g_i g
      | AtPost \<Rightarrow> g_i g | AtPause \<Rightarrow> Suc (g_i g)
      | AtSend \<Rightarrow> length (g_tasks g) | Exited \<Rightarrow> length (g_tasks g))"

definition rem_pre :: "('s, 'v) goroutine \<Rightarrow> int multiset" where
  "rem_pre g = mset (map (\<lambda>j. int j + g_offset g) [pre_from g..<length (g_tasks g)])"

definition rem_post :: "('s, 'v) goroutine \<Rightarrow> int multiset" where
  "rem_post g = mset (map (\<lambda>j. int j + g_offset g) [post_from g..<length (g_tasks g)])"

text \<open>
  The invariant of the concurrent part for the hook calls: the arguments of the calls
  made so far, together with those that the goroutines still have to make, are a fixed
  multiset, and no on-start or on-finish call is made.
\<close>

definition hooks_inv ::
  "('s, 'v) Program \<Rightarrow> 'v event list \<Rightarrow> int multiset \<Rightarrow> int multiset \<Rightarrow> ('s, 'v) conc \<Rightarrow> bool" where
  "hooks_inv p tr0 A B c =
     (prog (shared c) = p \<and> all_wf c
      \<and> (\<exists>mid. trace (shared c) = tr0 @ mid \<and> filter is_start_finish mid = []
            \<and> mset (pre_args mid) + sum_list (map rem_pre (gs c)) = A
            \<and> mset (post_args mid) + sum_list (map rem_post (gs c)) = B))"

text \<open>
  The arguments that the dispatch of \<open>RunConc\<close> hands to the pre-task hook (and to the
  post-task hook): runner \<open>k\<close> runs \<open>run\<close> with offset \<open>k\<close>, so it calls the hooks with
  \<open>j + k\<close> for every index \<open>j\<close> of its zone.
\<close>

definition conc_hook_args :: "'a list \<Rightarrow> int \<Rightarrow> int multiset" where
  "conc_hook_args tasks runners =
     sum_list (map (\<lambda>k. mset (map (\<lambda>j. int j + int k)
         [0..<length (zone tasks (int (length tasks)) runners (int (length tasks) div runners) k)]))
       [0..<nat runners])"

text \<open>
  A memory is explained from an earlier one when the program is the same, the trace has
  only grown, and the events added explain the passage between the two worlds. The
  invariant of the goroutines for it: the shared memory is explained from the memory at
  dispatch, and every goroutine runs tasks of the program.
\<close>

definition explained :: "('s, 'v) mem \<Rightarrow> ('s, 'v) mem \<Rightarrow> bool" where
  "explained m0 m =
     (prog m = prog m0
      \<and> (\<exists>es. trace m = trace m0 @ es \<and> explains (prog m0) es (world m0) (world m)))"

definition expl_inv :: "('s, 'v) mem \<Rightarrow> ('s, 'v) conc \<Rightarrow> bool" where
  "expl_inv m0 c =
     (explained m0 (shared c) \<and> all_wf c
      \<and> list_all (\<lambda>g. set (g_tasks g) \<subseteq> set (Tasks (prog m0))) (gs c))"

section \<open>Properties of the partition\<close>

lemma go_div_pos: "0 \<le> a \<Longrightarrow> 0 < b \<Longrightarrow> go_div a b = Inr (a div b)"
  by (simp add: go_div_def sgn_if)

lemma safeRunnerQuantity_range:
  "1 \<le> L \<Longrightarrow> 1 \<le> safeRunnerQuantity n L \<and> safeRunnerQuantity n L \<le> L"
  by (simp add: safeRunnerQuantity_def)

lemma span_nonneg: "1 \<le> w \<Longrightarrow> w \<le> (L::int) \<Longrightarrow> 0 \<le> L div w"
  by (simp add: pos_imp_zdiv_nonneg_iff)

lemma span_pos: "1 \<le> w \<Longrightarrow> w \<le> (L::int) \<Longrightarrow> 1 \<le> L div w"
  using pos_imp_zdiv_pos_iff [of w L] by simp

lemma span_mult_le: "1 \<le> w \<Longrightarrow> w * (L div w) \<le> (L::int)"
  using mult_div_mod_eq [of w L] pos_mod_sign [of w L] by linarith

lemma concat_chain:
  "(\<And>i. i < k \<Longrightarrow> f i \<le> f (Suc i)) \<Longrightarrow>
     concat (map (\<lambda>i. [f i..<f (Suc i)]) [0..<k]) = [f 0..<f k]"
proof (induction k)
  case 0
  then show ?case by simp
next
  case (Suc k)
  have mono: "f 0 \<le> f k"
    using Suc.prems
  proof (induction k)
    case 0 then show ?case by simp
  next
    case (Suc j)
    then have "f 0 \<le> f j" by simp
    moreover have "f j \<le> f (Suc j)" using Suc.prems by simp
    ultimately show ?case by simp
  qed
  have "f k \<le> f (Suc k)" using Suc.prems by simp
  with mono have "[f 0..<f k] @ [f k..<f (Suc k)] = [f 0..<f (Suc k)]"
    by (metis le_Suc_ex upt_add_eq_append)
  with Suc show ?case by simp
qed

lemma shard_bounds_cut:
  assumes "int i < runners" "0 \<le> span" "0 \<le> len"
  shows "shard_bounds len runners span (int i)
           = (int (cut len runners span i), int (cut len runners span (Suc i)))"
  using assms by (auto simp: shard_bounds_def cut_def Let_def algebra_simps)

lemma cut_mono:
  assumes "int i < runners" "0 \<le> span" "runners * span \<le> len"
  shows "cut len runners span i \<le> cut len runners span (Suc i)"
proof (cases "int (Suc i) = runners")
  case True
  then have "int i * span \<le> runners * span"
    using assms by (simp add: mult_right_mono)
  with True assms show ?thesis by (auto simp: cut_def)
next
  case False
  then show ?thesis using assms by (auto simp: cut_def algebra_simps nat_le_eq_zle)
qed

lemma shards_eq:
  assumes "1 \<le> L"
  shows "shards n L = Some (map (\<lambda>i. shard_bounds L (safeRunnerQuantity n L) (L div safeRunnerQuantity n L) (int i))
     [0..<nat (safeRunnerQuantity n L)])"
  using assms safeRunnerQuantity_range [OF assms, of n]
  by (simp add: shards_def Let_def go_div_pos)

lemma shards_cover:
  assumes "1 \<le> w" "w \<le> L"
  shows "concat (map (\<lambda>i. case shard_bounds L w (L div w) (int i) of (a, b) \<Rightarrow> [nat a..<nat b]) [0..<nat w]) = [0..<nat L]"
proof -
  let ?c = "cut L w (L div w)"
  have sp: "0 \<le> L div w" "w * (L div w) \<le> L"
    using assms span_nonneg span_mult_le by auto
  have A: "map (\<lambda>i. case shard_bounds L w (L div w) (int i) of (a, b) \<Rightarrow> [nat a..<nat b]) [0..<nat w]
        = map (\<lambda>i. [?c i..<?c (Suc i)]) [0..<nat w]"
    using assms sp by (intro map_cong refl) (simp add: shard_bounds_cut)
  have B: "concat (map (\<lambda>i. [?c i..<?c (Suc i)]) [0..<nat w]) = [?c 0..<?c (nat w)]"
    using assms sp by (intro concat_chain cut_mono) auto
  have "?c 0 = 0" using assms by (simp add: cut_def)
  moreover have "?c (nat w) = nat L" using assms by (simp add: cut_def)
  ultimately show ?thesis unfolding A B by simp
qed

text \<open>
  The dispatch loop starts one goroutine for each zone, in order, and hands it the tasks of
  the zone, its index as id and, as offset, its index again.
\<close>

lemma cut_le:
  assumes "int i \<le> runners" "0 \<le> span" "runners * span \<le> len"
  shows "cut len runners span i \<le> nat len"
proof -
  have "int i * span \<le> runners * span" using assms by (simp add: mult_right_mono)
  with assms show ?thesis by (auto simp: cut_def)
qed

lemma slice_cut:
  assumes "a \<le> b" "b \<le> length xs"
  shows "slice xs (int a) (int b) = Inr (take (b - a) (drop a xs))"
  using assms by (simp add: slice_def)

lemma dispatch_eq:
  assumes "0 \<le> i" "i \<le> runners" "0 \<le> span" "runners * span \<le> len"
    "len = int (length tasks)"
  shows "dispatch tasks len runners span i gs0
     = Inr (gs0 @ map (\<lambda>k. spawn (int k) (zone tasks len runners span k) (int k))
                    [nat i..<nat runners])"
  using assms(1,2)
proof (induction "nat (runners - i)" arbitrary: i gs0)
  case 0
  then have "i = runners" by simp
  then show ?case by (subst dispatch.simps) simp
next
  case (Suc d)
  then have lt: "i < runners" by simp
  let ?k = "nat i"
  have ik: "int ?k = i" using Suc.prems by simp
  have sb: "shard_bounds len runners span i
      = (int (cut len runners span ?k), int (cut len runners span (Suc ?k)))"
    using shard_bounds_cut [of ?k runners span len] lt assms(3,5) ik by simp
  have m: "cut len runners span ?k \<le> cut len runners span (Suc ?k)"
    using cut_mono [of ?k runners span len] lt assms(3,4) ik by simp
  have le: "cut len runners span (Suc ?k) \<le> length tasks"
    using cut_le [of "Suc ?k" runners span len] lt assms(3,4,5) ik by simp
  have sl: "slice tasks (int (cut len runners span ?k)) (int (cut len runners span (Suc ?k)))
      = Inr (zone tasks len runners span ?k)"
    using slice_cut [OF m le] by (simp add: zone_def)
  have d: "d = nat (runners - (i + 1))" using Suc.hyps(2) by simp
  have IH: "dispatch tasks len runners span (i + 1) (gs0 @ [spawn i (zone tasks len runners span ?k) i])
     = Inr ((gs0 @ [spawn i (zone tasks len runners span ?k) i])
         @ map (\<lambda>k. spawn (int k) (zone tasks len runners span k) (int k))
                    [nat (i + 1)..<nat runners])"
    using Suc.hyps(1) [OF d] Suc.prems lt by simp
  have upt: "[nat i..<nat runners] = ?k # [nat (i + 1)..<nat runners]"
    using lt Suc.prems by (simp add: upt_conv_Cons nat_add_distrib)
  show ?case
    using Suc.prems(1) by (subst dispatch.simps) (simp add: lt sb sl IH upt ik)
qed

lemma concat_take_drop_chain:
  assumes "\<And>i. i < k \<Longrightarrow> c i \<le> c (Suc i)" "c 0 = 0"
  shows "concat (map (\<lambda>i. take (c (Suc i) - c i) (drop (c i) xs)) [0..<k]) = take (c k) xs"
  using assms(1)
proof (induction k)
  case 0
  then show ?case by (simp add: assms(2))
next
  case (Suc k)
  have "c k \<le> c (Suc k)" using Suc.prems by simp
  then have "take (c k) xs @ take (c (Suc k) - c k) (drop (c k) xs) = take (c (Suc k)) xs"
    using take_add [of "c k" "c (Suc k) - c k" xs] by simp
  with Suc show ?case by simp
qed

lemma concat_zones:
  assumes "1 \<le> w"
  shows "concat (map (zone xs (int (length xs)) w (int (length xs) div w)) [0..<nat w]) = xs"
proof -
  let ?L = "int (length xs)"
  let ?c = "cut ?L w (?L div w)"
  have sp: "0 \<le> ?L div w" "w * (?L div w) \<le> ?L"
    using assms span_mult_le by (auto simp: pos_imp_zdiv_nonneg_iff)
  have "concat (map (\<lambda>i. take (?c (Suc i) - ?c i) (drop (?c i) xs)) [0..<nat w])
        = take (?c (nat w)) xs"
    using assms sp by (intro concat_take_drop_chain cut_mono) (auto simp: cut_def)
  moreover have "?c (nat w) = length xs" using assms by (simp add: cut_def)
  ultimately show ?thesis by (simp add: zone_def [abs_def])
qed

lemma zone_shard_bounds:
  assumes "int k < runners" "0 \<le> span" "0 \<le> len"
  shows "(case shard_bounds len runners span (int k) of
            (a, b) \<Rightarrow> take (nat b - nat a) (drop (nat a) xs))
         = zone xs len runners span k"
  using shard_bounds_cut [OF assms] by (simp add: zone_def)

lemma dispatch_shards:
  assumes "shards n (int (length tasks)) = Some zs"
  shows "dispatch tasks (int (length tasks)) (safeRunnerQuantity n (int (length tasks)))
           (int (length tasks) div safeRunnerQuantity n (int (length tasks))) 0 []
         = Inr (map (\<lambda>(k, a, b). spawn (int k) (take (nat b - nat a) (drop (nat a) tasks)) (int k))
                  (enumerate 0 zs))"
proof -
  let ?L = "int (length tasks)"
  let ?w = "safeRunnerQuantity n ?L"
  let ?span = "?L div ?w"
  have w0: "?w \<noteq> 0"
    using assms by (auto simp: shards_def Let_def go_div_def split: if_splits)
  then have w: "1 \<le> ?w"
    by (cases tasks) (auto simp: safeRunnerQuantity_def split: if_splits)
  have sp: "0 \<le> ?span" "?w * ?span \<le> ?L"
    using w span_mult_le by (auto simp: pos_imp_zdiv_nonneg_iff)
  have zs: "zs = map (\<lambda>i. shard_bounds ?L ?w ?span (int i)) [0..<nat ?w]"
    using assms w by (simp add: shards_def Let_def go_div_pos)
  have "map (\<lambda>(k, a, b). spawn (int k) (take (nat b - nat a) (drop (nat a) tasks)) (int k))
          (enumerate 0 zs)
        = map (\<lambda>k. spawn (int k)
            (case shard_bounds ?L ?w ?span (int k) of
               (a, b) \<Rightarrow> take (nat b - nat a) (drop (nat a) tasks)) (int k)) [0..<nat ?w]"
    unfolding zs enumerate_map_upt by (simp add: comp_def split: prod.splits)
  also have "\<dots> = map (\<lambda>k. spawn (int k) (zone tasks ?L ?w ?span k) (int k)) [0..<nat ?w]"
    using sp(1) by (intro map_cong refl) (simp add: zone_shard_bounds)
  finally show ?thesis
    using dispatch_eq [of 0 ?w ?span ?L tasks "[]"] w sp by simp
qed

text \<open>
  C5. The normalisation of the number of runners is: the task count if \<open>n\<close> exceeds
  it, otherwise 1 if \<open>n\<close> is below 1, otherwise \<open>n\<close>; for at least one task this is
  \<open>n\<close> clamped between 1 and the task count. For \<open>L \<ge> 1\<close> tasks, a request of more
  than \<open>L\<close> runners gives exactly \<open>L\<close> zones of one task each, and a request of zero
  or fewer runners gives exactly one zone.
\<close>

theorem safeRunnerQuantity_clamp:
  "safeRunnerQuantity n L = (if n > L then L else if n < 1 then 1 else n)
   \<and> (1 \<le> L \<longrightarrow> safeRunnerQuantity n L = max 1 (min n L))
   \<and> (1 \<le> L \<and> n > L \<longrightarrow> shards n L = Some (map (\<lambda>i. (int i, int i + 1)) [0..<nat L]))
   \<and> (1 \<le> L \<and> n \<le> 0 \<longrightarrow> shards n L = Some [(0, L)])"
proof (intro conjI impI)
  show "safeRunnerQuantity n L = (if n > L then L else if n < 1 then 1 else n)"
    by (simp add: safeRunnerQuantity_def)
  show "safeRunnerQuantity n L = max 1 (min n L)" if "1 \<le> L"
    using that by (simp add: safeRunnerQuantity_def max_def min_def)
  show "shards n L = Some (map (\<lambda>i. (int i, int i + 1)) [0..<nat L])" if "1 \<le> L \<and> n > L"
  proof -
    have w: "safeRunnerQuantity n L = L" using that by (simp add: safeRunnerQuantity_def)
    have "map (\<lambda>i. shard_bounds L L 1 (int i)) [0..<nat L] = map (\<lambda>i. (int i, int i + 1)) [0..<nat L]"
      by (intro map_cong refl) (auto simp: shard_bounds_def Let_def)
    with that w show ?thesis by (simp add: shards_eq)
  qed
  show "shards n L = Some [(0, L)]" if "1 \<le> L \<and> n \<le> 0"
  proof -
    have w: "safeRunnerQuantity n L = 1" using that by (simp add: safeRunnerQuantity_def)
    with that show ?thesis by (simp add: shards_eq shard_bounds_def)
  qed
qed


theorem safeRunnerQuantity_clamp_witness:
  "(1::int) \<le> 5 \<and> safeRunnerQuantity 8 5 = max 1 (min 8 5)
   \<and> (8::int) > 5 \<and> shards 8 5 = Some [(0, 1), (1, 2), (2, 3), (3, 4), (4, 5)]
   \<and> (0::int) \<le> 0 \<and> shards 0 5 = Some [(0, 5)]"
  using safeRunnerQuantity_clamp [of 8 5] safeRunnerQuantity_clamp [of 0 5] by (simp add: upt_rec)

lemma last_shard_size: "1 \<le> w \<Longrightarrow> L - (w - 1) * (L div w) = L div w + L mod (w::int)"
  using mult_div_mod_eq [of w L] by (simp add: algebra_simps)

text \<open>
  C4. For \<open>L \<ge> 1\<close> tasks, with \<open>w\<close> the effective number of runners and
  \<open>span = L div w\<close>: zone \<open>i\<close> is \<open>[i * span, i * span + span)\<close> for \<open>i < w - 1\<close> and the
  last zone is \<open>[(w - 1) * span, L)\<close>; every zone is non-empty and within \<open>[0, L)\<close>; the
  zones, laid end to end, are exactly \<open>[0, L)\<close> (contiguous, without overlap or gap); and
  the last zone has \<open>span + L mod w\<close> tasks. Five tasks and three runners give the zones
  \<open>[0:1]\<close>, \<open>[1:2]\<close>, \<open>[2:5]\<close>. These zones are the ones the dispatch loop slices out
  (lemma \<open>dispatch_shards\<close>).
\<close>

theorem shards_partition:
  "1 \<le> L \<longrightarrow>
     (\<exists>w span zs. w = safeRunnerQuantity n L \<and> span = L div w \<and> shards n L = Some zs
        \<and> zs = map (\<lambda>i. if int i < w - 1 then (int i * span, int i * span + span)
                         else ((w - 1) * span, L)) [0..<nat w]
        \<and> list_all (\<lambda>(a, b). 0 \<le> a \<and> a < b \<and> b \<le> L) zs
        \<and> concat (map (\<lambda>(a, b). [nat a..<nat b]) zs) = [0..<nat L]
        \<and> L - (w - 1) * span = span + L mod w)"
proof
  assume L: "1 \<le> L"
  let ?w = "safeRunnerQuantity n L"
  let ?span = "L div ?w"
  let ?zs = "map (\<lambda>i. shard_bounds L ?w ?span (int i)) [0..<nat ?w]"
  have w: "1 \<le> ?w" "?w \<le> L" using safeRunnerQuantity_range [OF L, of n] by auto
  have sp: "0 \<le> ?span" "1 \<le> ?span" "?w * ?span \<le> L"
    using w span_nonneg span_pos span_mult_le by auto
  have explicit: "?zs = map (\<lambda>i. if int i < ?w - 1 then (int i * ?span, int i * ?span + ?span)
                         else ((?w - 1) * ?span, L)) [0..<nat ?w]"
    by (intro map_cong refl) (auto simp: shard_bounds_def Let_def)
  have bounds: "list_all (\<lambda>(a, b). 0 \<le> a \<and> a < b \<and> b \<le> L) ?zs"
  proof -
    have "0 \<le> int i * ?span \<and> int i * ?span < snd (shard_bounds L ?w ?span (int i))
          \<and> snd (shard_bounds L ?w ?span (int i)) \<le> L" if "i < nat ?w" for i
    proof -
      have i: "int i + 1 \<le> ?w" using that by simp
      then have "(int i + 1) * ?span \<le> ?w * ?span" using sp(1) by (rule mult_right_mono)
      then have le: "int i * ?span + ?span \<le> L" using sp(3) by (simp add: algebra_simps)
      show ?thesis using le sp(1,2) by (auto simp: shard_bounds_def Let_def)
    qed
    then show ?thesis
      by (simp add: list_all_iff shard_bounds_def Let_def)
  qed
  have cover: "concat (map (\<lambda>(a, b). [nat a..<nat b]) ?zs) = [0..<nat L]"
    using shards_cover [OF w] by (simp add: comp_def)
  show "\<exists>w span zs. w = safeRunnerQuantity n L \<and> span = L div w \<and> shards n L = Some zs
        \<and> zs = map (\<lambda>i. if int i < w - 1 then (int i * span, int i * span + span)
                         else ((w - 1) * span, L)) [0..<nat w]
        \<and> list_all (\<lambda>(a, b). 0 \<le> a \<and> a < b \<and> b \<le> L) zs
        \<and> concat (map (\<lambda>(a, b). [nat a..<nat b]) zs) = [0..<nat L]
        \<and> L - (w - 1) * span = span + L mod w"
    using shards_eq [OF L, of n] explicit bounds cover last_shard_size [OF w(1), of L]
    by (intro exI [of _ ?w] exI [of _ ?span] exI [of _ ?zs]) (simp only: simp_thms)
qed

theorem shards_partition_witness:
  "(1::int) \<le> 5 \<and> shards 3 5 = Some [(0, 1), (1, 2), (2, 5)]
   \<and> concat (map (\<lambda>(a, b). [nat a..<nat b]) [(0, 1), (1, 2), (2, 5::int)]) = [0..<nat 5]"
  using shards_partition [of 5 3] by (simp add: safeRunnerQuantity_def upt_rec)

section \<open>Properties of the core loop and of \<open>Run\<close>\<close>

lemma log_event_simps [simp]:
  "prog (log_event e m) = prog m" "world (log_event e m) = world m"
  "trace (log_event e m) = trace m @ [e]"
  by (simp_all add: log_event_def)

lemma call_PreHook_prog [simp]: "prog (call_PreHook k m) = prog m"
  by (simp add: call_PreHook_def split: option.splits)
lemma call_PostHook_prog [simp]: "prog (call_PostHook k v m) = prog m"
  by (simp add: call_PostHook_def split: option.splits)
lemma call_OnStart_prog [simp]: "prog (call_OnStart m) = prog m"
  by (simp add: call_OnStart_def split: option.splits)
lemma call_OnFinish_prog [simp]: "prog (snd (call_OnFinish r m)) = prog m"
  by (simp add: call_OnFinish_def split: option.splits prod.splits)

lemma keep_length_length [simp]: "length (keep_length old new) = length old"
  by (simp add: keep_length_def)

lemma keep_length_same [simp]: "keep_length old old = old"
  by (simp add: keep_length_def)

lemma call_OnFinish_length [simp]: "length (fst (call_OnFinish r m)) = length r"
  by (simp add: call_OnFinish_def split: option.splits prod.splits)

lemma call_OnFinish_keeps:
  assumes "keeps_results (prog m)"
  shows "fst (call_OnFinish r m) = r"
proof (cases "OnFinish (prog m)")
  case None
  then show ?thesis by (simp add: call_OnFinish_def)
next
  case (Some h)
  then have "fst (h r (world m)) = r"
    using assms by (simp add: keeps_results_def)
  then show ?thesis
    using Some by (cases "h r (world m)") (simp add: call_OnFinish_def)
qed

lemma call_Task_prog [simp]: "prog (snd (call_Task f i m)) = prog m"
  by (simp add: call_Task_def split: prod.splits)
lemma sleep_between_prog [simp]: "prog (sleep_between b m) = prog m"
  by (simp add: sleep_between_def)

lemma call_PreHook_trace:
  "trace (call_PreHook k m) = trace m @ (case PreHook (prog m) of None \<Rightarrow> [] | Some h \<Rightarrow> [EvPreHook k])"
  by (simp add: call_PreHook_def split: option.splits)
lemma call_PostHook_trace:
  "trace (call_PostHook k v m) = trace m @ (case PostHook (prog m) of None \<Rightarrow> [] | Some h \<Rightarrow> [EvPostHook k v])"
  by (simp add: call_PostHook_def split: option.splits)
lemma call_Task_trace:
  "trace (snd (call_Task f i m)) = trace m @ [EvTask i (fst (call_Task f i m))]"
  by (simp add: call_Task_def split: prod.splits)
lemma sleep_between_trace:
  "trace (sleep_between b m) = trace m @ (if Interval (prog m) > 0 \<and> \<not> b then [EvSleep (Interval (prog m))] else [])"
  by (simp add: sleep_between_def)

lemma iteration_prog [simp]: "prog (snd (iteration tasks offset l i m)) = prog m"
  by (simp add: iteration_def split: prod.splits)
    (metis call_PreHook_prog call_Task_prog snd_conv)

lemma iteration_trace:
  assumes "i < l"
  shows "trace (snd (iteration tasks offset l i m))
     = trace m @ iteration_events (prog m) offset l i (fst (iteration tasks offset l i m))"
proof -
  obtain v m2 where t: "call_Task (tasks ! i) i (call_PreHook (int i + offset) m) = (v, m2)"
    by (cases "call_Task (tasks ! i) i (call_PreHook (int i + offset) m)")
  have p2: "prog m2 = prog m"
    using call_Task_prog [of "tasks ! i" i "call_PreHook (int i + offset) m"] t by simp
  have t2: "trace m2 = trace (call_PreHook (int i + offset) m) @ [EvTask i v]"
    using call_Task_trace [of "tasks ! i" i "call_PreHook (int i + offset) m"] t by simp
  have last: "(int i = int l - 1) = (\<not> Suc i < l)" using assms by auto
  show ?thesis
    by (simp add: iteration_def t iteration_events_def sleep_between_trace
        call_PostHook_trace call_PreHook_trace t2 p2 last)
qed

lemma run_loop_unfold:
  "run_loop tasks offset l i results m =
     (if i < length tasks then
        (case iteration tasks offset l i m of
           (v, m') \<Rightarrow> run_loop tasks offset l (Suc i) (results[i := v]) m')
      else (results, m))"
  by (subst run_loop.simps) (simp add: iteration_def Let_def split: prod.splits)

lemma run_loop_props:
  assumes "length results = length tasks" "l = length tasks"
  shows "length (fst (run_loop tasks offset l i results m)) = length tasks
    \<and> take i (fst (run_loop tasks offset l i results m)) = take i results
    \<and> prog (snd (run_loop tasks offset l i results m)) = prog m
    \<and> trace (snd (run_loop tasks offset l i results m))
        = trace m @ concat (map (\<lambda>j. iteration_events (prog m) offset l j
                                     (fst (run_loop tasks offset l i results m) ! j))
                               [i..<length tasks])"
  using assms
proof (induction "length tasks - i" arbitrary: i results m)
  case 0
  then show ?case by (subst run_loop_unfold)+ simp
next
  case (Suc d)
  then have i: "i < length tasks" by simp
  obtain v m' where it: "iteration tasks offset l i m = (v, m')"
    by (cases "iteration tasks offset l i m")
  let ?r = "run_loop tasks offset l (Suc i) (results[i := v]) m'"
  have unf: "run_loop tasks offset l i results m = ?r"
    by (subst run_loop_unfold) (simp add: i it)
  have d: "d = length tasks - Suc i" using Suc.hyps by simp
  have IH: "length (fst ?r) = length tasks"
    "take (Suc i) (fst ?r) = take (Suc i) (results[i := v])"
    "prog (snd ?r) = prog m'"
    "trace (snd ?r) = trace m' @ concat (map (\<lambda>j. iteration_events (prog m') offset l j (fst ?r ! j)) [Suc i..<length tasks])"
    using Suc.hyps(1) [OF d, of "results[i := v]" m'] Suc.prems by simp_all
  have pm: "prog m' = prog m" using iteration_prog [of tasks offset l i m] it by simp
  have ri: "fst ?r ! i = v"
  proof -
    have "fst ?r ! i = take (Suc i) (fst ?r) ! i" by simp
    also have "\<dots> = take (Suc i) (results[i := v]) ! i" by (simp only: IH(2))
    also have "\<dots> = v" using i Suc.prems by simp
    finally show ?thesis .
  qed
  have tk: "take i (fst ?r) = take i results"
  proof -
    have "take i (fst ?r) = take i (take (Suc i) (fst ?r))" by (simp add: min_def)
    also have "\<dots> = take i (take (Suc i) (results[i := v]))" by (simp only: IH(2))
    also have "\<dots> = take i results" by (simp add: min_def)
    finally show ?thesis .
  qed
  have tm: "trace m' = trace m @ iteration_events (prog m) offset l i v"
    using iteration_trace [of i l tasks offset m] i Suc.prems it by simp
  have upt: "[i..<length tasks] = i # [Suc i..<length tasks]"
    using i by (simp add: upt_conv_Cons)
  show ?case
    unfolding unf using IH(1) IH(3) tk by (simp add: pm IH(4) tm upt ri)
qed


lemma iteration_returns:
  "returns (tasks ! i) v \<Longrightarrow> fst (iteration tasks offset l i m) = v"
  by (simp add: iteration_def call_Task_def returns_def split: prod.splits)

lemma run_loop_pure:
  assumes "list_all2 returns tasks vs" "length results = length tasks"
  shows "fst (run_loop tasks offset l i results m) = take i results @ drop i vs"
  using assms(2)
proof (induction "length tasks - i" arbitrary: i results m)
  case 0
  then have "length vs \<le> i" using assms(1) by (simp add: list_all2_lengthD)
  with 0 show ?case by (subst run_loop_unfold) simp
next
  case (Suc d)
  then have i: "i < length tasks" by simp
  then have iv: "i < length vs" using assms(1) by (simp add: list_all2_lengthD)
  have "returns (tasks ! i) (vs ! i)" using assms(1) i by (simp add: list_all2_nthD)
  then have v: "fst (iteration tasks offset l i m) = vs ! i" by (rule iteration_returns)
  obtain m' where it: "iteration tasks offset l i m = (vs ! i, m')"
    using v by (cases "iteration tasks offset l i m") simp
  have d: "d = length tasks - Suc i" using Suc.hyps by simp
  have "fst (run_loop tasks offset l i results m)
        = fst (run_loop tasks offset l (Suc i) (results[i := vs ! i]) m')"
    by (subst run_loop_unfold) (simp add: i it)
  also have "\<dots> = take (Suc i) (results[i := vs ! i]) @ drop (Suc i) vs"
    using Suc.hyps(1) [OF d, of "results[i := vs ! i]" m'] Suc.prems by simp
  also have "\<dots> = take i results @ drop i vs"
    using i iv Suc.prems by (simp add: take_Suc_conv_app_nth Cons_nth_drop_Suc)
  finally show ?case .
qed

lemma run_length: "length (fst (run tasks offset m)) = length tasks"
  using run_loop_props [of "replicate (length tasks) None" tasks "length tasks" offset 0 m]
  by (simp add: run_def Let_def)

lemma run_prog: "prog (snd (run tasks offset m)) = prog m"
  using run_loop_props [of "replicate (length tasks) None" tasks "length tasks" offset 0 m]
  by (simp add: run_def Let_def)

lemma run_trace:
  "trace (snd (run tasks offset m))
     = trace m @ concat (map (\<lambda>i. iteration_events (prog m) offset (length tasks) i
                                  (fst (run tasks offset m) ! i)) [0..<length tasks])"
  using run_loop_props [of "replicate (length tasks) None" tasks "length tasks" offset 0 m]
  by (simp add: run_def Let_def)

lemma run_pure: "list_all2 returns tasks vs \<Longrightarrow> fst (run tasks offset m) = vs"
  using run_loop_pure [of tasks vs "replicate (length tasks) None" offset "length tasks" 0 m]
  by (simp add: run_def Let_def)

lemma run_Nil: "run [] offset m = ([], m)"
  by (simp add: run_def Let_def run_loop_unfold)

lemma filter_pause_iteration_events:
  "filter is_pause (iteration_events p offset l i v)
     = (if Interval p > 0 \<and> Suc i < l then [EvSleep (Interval p)] else [])"
  by (simp add: iteration_events_def split: option.splits)


lemma filter_start_finish_iteration_events:
  "filter is_start_finish (iteration_events p offset l i v) = []"
  by (simp add: iteration_events_def split: option.splits)

lemma concat_pauses:
  "concat (map (\<lambda>i. if Suc i < l then [e] else []) [0..<k]) = replicate (min k (l - 1)) e"
proof (induction k)
  case 0
  then show ?case by simp
next
  case (Suc k)
  show ?case
  proof (cases "Suc k < l")
    case True
    then have "min (Suc k) (l - 1) = Suc (min k (l - 1))" by simp
    with True Suc show ?thesis by (simp add: replicate_append_same)
  next
    case False
    then have "min (Suc k) (l - 1) = min k (l - 1)" by simp
    with False Suc show ?thesis by simp
  qed
qed

lemma filter_concat_map:
  "filter P (concat (map f xs)) = concat (map (\<lambda>x. filter P (f x)) xs)"
  by (induction xs) simp_all

text \<open>
  C8. With a positive interval, the trace of the core loop over \<open>L\<close> tasks is the
  sequence of the passes' events, where the pass at index \<open>i\<close> ends with a pause of the
  configured duration exactly when \<open>i\<close> is not the last index: the pause comes after
  the post-hook call of task \<open>i\<close> and before the pre-hook call of task \<open>i + 1\<close>. The
  loop pauses \<open>L - 1\<close> times (never for \<open>L = 0\<close>), each time for the interval.
\<close>

theorem run_pauses:
  "0 < Interval (prog m) \<longrightarrow>
     trace (snd (run tasks offset m))
       = trace m @ concat (map (\<lambda>i. iteration_events (prog m) offset (length tasks) i
                                    (fst (run tasks offset m) ! i)) [0..<length tasks])
     \<and> filter is_pause (trace (snd (run tasks offset m)))
       = filter is_pause (trace m) @ replicate (length tasks - 1) (EvSleep (Interval (prog m)))"
proof (intro impI conjI)
  assume pos: "0 < Interval (prog m)"
  show "trace (snd (run tasks offset m))
       = trace m @ concat (map (\<lambda>i. iteration_events (prog m) offset (length tasks) i
                                    (fst (run tasks offset m) ! i)) [0..<length tasks])"
    by (rule run_trace)
  have min_eq: "min (length tasks) (length tasks - 1) = length tasks - 1" by simp
  have "concat (map (\<lambda>i. filter is_pause (iteration_events (prog m) offset (length tasks) i
                                    (fst (run tasks offset m) ! i))) [0..<length tasks])
        = concat (map (\<lambda>i. if Suc i < length tasks then [EvSleep (Interval (prog m))] else [])
                   [0..<length tasks])"
    using pos by (simp add: filter_pause_iteration_events)
  also have "\<dots> = replicate (length tasks - 1) (EvSleep (Interval (prog m)))"
    by (simp only: concat_pauses min_eq) 
  finally show "filter is_pause (trace (snd (run tasks offset m)))
       = filter is_pause (trace m) @ replicate (length tasks - 1) (EvSleep (Interval (prog m)))"
    by (simp add: run_trace filter_concat_map)
qed


lemma Run_eq:
  "Run m = call_OnFinish (fst (run (Tasks (prog m)) 0 (call_OnStart m)))
             (snd (run (Tasks (prog m)) 0 (call_OnStart m)))"
  by (simp add: Run_def Let_def split: prod.splits)

lemma call_OnStart_trace:
  "trace (call_OnStart m) = trace m @ (case OnStart (prog m) of None \<Rightarrow> [] | Some h \<Rightarrow> [EvOnStart])"
  by (simp add: call_OnStart_def split: option.splits)

lemma call_OnFinish_trace:
  "trace (snd (call_OnFinish r m))
     = trace m @ (case OnFinish (prog m) of None \<Rightarrow> [] | Some h \<Rightarrow> [EvOnFinish r])"
  by (simp add: call_OnFinish_def split: option.splits prod.splits)

theorem run_pauses_witness:
  "0 < Interval (prog (start_mem example 0))
   \<and> filter is_pause (trace (snd (run tasks5 0 (start_mem example 0))))
       = [EvSleep 1000000000, EvSleep 1000000000, EvSleep 1000000000, EvSleep 1000000000]"
proof -
  let ?m = "start_mem example 0"
  have h: "0 < Interval (prog ?m)"
    by (simp add: start_mem_def example_def)
  have r: "replicate (length tasks5 - 1) (EvSleep 1000000000 :: string event)
        = [EvSleep 1000000000, EvSleep 1000000000, EvSleep 1000000000, EvSleep 1000000000]"
    by (simp add: tasks5_def numeral_eq_Suc)
  have i: "Interval (prog ?m) = 1000000000" and t: "trace ?m = []"
    by (simp_all add: start_mem_def example_def)
  have "filter is_pause (trace (snd (run tasks5 0 ?m)))
        = filter is_pause (trace ?m) @ replicate (length tasks5 - 1) (EvSleep (Interval (prog ?m)))"
    using run_pauses [of ?m tasks5 0] h by blast
  then have "filter is_pause (trace (snd (run tasks5 0 ?m)))
        = [EvSleep 1000000000, EvSleep 1000000000, EvSleep 1000000000, EvSleep 1000000000]"
    by (simp only: i t r filter.simps append_Nil)
  with h show ?thesis by blast
qed


lemma keeps_results_example: "keeps_results example"
  by (simp add: keeps_results_def example_def)



section \<open>Properties of the goroutines and of \<open>RunConc\<close>\<close>

lemma g_step_AtPre:
  "g_pc g = AtPre \<Longrightarrow> g_step g m = (g\<lparr>g_pc := AtTask\<rparr>, call_PreHook (int (g_i g) + g_offset g) m, None)"
  by (simp add: g_step_def)

lemma g_step_AtTask:
  "g_pc g = AtTask \<Longrightarrow> g_step g m =
     (g\<lparr>g_results := (g_results g)[g_i g := fst (call_Task (g_tasks g ! g_i g) (g_i g) m)],
        g_v := fst (call_Task (g_tasks g ! g_i g) (g_i g) m), g_pc := AtPost\<rparr>,
      snd (call_Task (g_tasks g ! g_i g) (g_i g) m), None)"
  by (simp add: g_step_def split: prod.splits)

lemma g_step_AtPost:
  "g_pc g = AtPost \<Longrightarrow> g_step g m =
     (g\<lparr>g_pc := AtPause\<rparr>, call_PostHook (int (g_i g) + g_offset g) (g_v g) m, None)"
  by (simp add: g_step_def)

lemma g_step_AtPause:
  "g_pc g = AtPause \<Longrightarrow> g_step g m =
     (loop_head (g\<lparr>g_i := g_i g + 1\<rparr>), sleep_between (int (g_i g) = int (g_l g) - 1) m, None)"
  by (simp add: g_step_def)

lemma g_step_AtSend:
  "g_pc g = AtSend \<Longrightarrow> g_step g m = (g\<lparr>g_pc := Exited\<rparr>, m, Some (sent_by g))"
  by (simp add: g_step_def sent_by_def)

lemma g_step_Exited: "g_pc g = Exited \<Longrightarrow> g_step g m = (g, m, None)"
  by (simp add: g_step_def)

lemmas g_step_pc = g_step_AtPre g_step_AtTask g_step_AtPost g_step_AtPause g_step_AtSend
  g_step_Exited

lemma sched_step_out: "\<not> k < length (gs c) \<Longrightarrow> sched_step k c = c"
  by (simp add: sched_step_def)

lemma sched_step_in:
  "k < length (gs c) \<Longrightarrow> sched_step k c =
     \<lparr>gs = (gs c)[k := fst (g_step (gs c ! k) (shared c))],
      rawPartial = rawPartial c
        @ (case snd (snd (g_step (gs c ! k) (shared c))) of None \<Rightarrow> [] | Some r \<Rightarrow> [r]),
      shared = fst (snd (g_step (gs c ! k) (shared c)))\<rparr>"
  by (simp add: sched_step_def split: prod.splits)

lemma sched_step_length [simp]: "length (gs (sched_step k c)) = length (gs c)"
  by (cases "k < length (gs c)") (simp_all add: sched_step_in sched_step_out)

lemma sched_step_other: "j \<noteq> k \<Longrightarrow> gs (sched_step k c) ! j = gs c ! j"
  by (cases "k < length (gs c)") (simp_all add: sched_step_in sched_step_out)

lemma sched_step_same:
  "k < length (gs c) \<Longrightarrow> gs (sched_step k c) ! k = fst (g_step (gs c ! k) (shared c))"
  by (simp add: sched_step_in)

lemma sched_step_Exited:
  "k < length (gs c) \<Longrightarrow> g_pc (gs c ! k) = Exited \<Longrightarrow> sched_step k c = c"
  by (simp add: sched_step_in g_step_Exited)

lemma wf_spawn: "wf_g (spawn rid tasks offset)"
  by (simp add: wf_g_def spawn_def loop_head_def)

lemma wf_g_step: "wf_g g \<Longrightarrow> wf_g (fst (g_step g m))"
  by (cases "g_pc g") (auto simp: g_step_pc wf_g_def loop_head_def)

lemma static_g_step: "static (fst (g_step g m)) = static g"
  by (cases "g_pc g") (auto simp: g_step_pc static_def loop_head_def)

lemma steps_left_g_step: "wf_g g \<Longrightarrow> steps_left (fst (g_step g m)) = steps_left g - 1"
  by (cases "g_pc g") (auto simp: g_step_pc wf_g_def loop_head_def steps_left_def)

lemma steps_left_0: "wf_g g \<Longrightarrow> (steps_left g = 0) = (g_pc g = Exited)"
  by (cases "g_pc g") (auto simp: wf_g_def steps_left_def)

text \<open>Lifting an invariant of single steps to whole executions.\<close>

lemma funpow_sched_step_pres:
  assumes "\<And>k c. P c \<Longrightarrow> P (sched_step k c)" "P c"
  shows "P ((sched_step k ^^ n) c)"
  using assms(2) by (induction n) (simp_all add: assms(1))

lemma fold_sched_step_pres:
  assumes "\<And>k c. P c \<Longrightarrow> P (sched_step k c)" "P c"
  shows "P (fold sched_step sched c)"
  using assms(2) by (induction sched arbitrary: c) (simp_all add: assms(1))

lemma fold_finish_one_pres:
  assumes "\<And>k c. P c \<Longrightarrow> P (sched_step k c)" "P c"
  shows "P (fold finish_one ks c)"
  using assms(2)
proof (induction ks arbitrary: c)
  case Nil
  then show ?case by simp
next
  case (Cons k ks)
  have "P (finish_one k c)"
    unfolding finish_one_def using assms(1) Cons.prems by (rule funpow_sched_step_pres)
  then show ?case using Cons.IH by simp
qed

lemma run_goroutines_pres:
  assumes "\<And>k c. P c \<Longrightarrow> P (sched_step k c)" "P c"
  shows "P (run_goroutines sched c)"
proof -
  have "P (fold sched_step sched c)"
    using assms by (rule fold_sched_step_pres)
  with assms(1) have "P (fold finish_one [0..<length (gs (fold sched_step sched c))]
      (fold sched_step sched c))"
    by (rule fold_finish_one_pres)
  then show ?thesis by (simp add: run_goroutines_def finish_def)
qed

lemma all_wf_step: "all_wf c \<Longrightarrow> all_wf (sched_step k c)"
proof (cases "k < length (gs c)")
  case True
  assume "all_wf c"
  then have "wf_g (fst (g_step (gs c ! k) (shared c)))"
    using True by (simp add: all_wf_def list_all_length wf_g_step)
  with \<open>all_wf c\<close> show ?thesis
    using True by (auto simp: all_wf_def list_all_length sched_step_in nth_list_update)
next
  case False
  assume "all_wf c"
  with False show ?thesis by (simp add: sched_step_out)
qed

lemma static_step: "map static (gs (sched_step k c)) = map static (gs c)"
  by (cases "k < length (gs c)")
    (simp_all add: sched_step_in sched_step_out map_update static_g_step list_update_same_conv)

lemma g_step_sent:
  "snd (snd (g_step g m)) = (if g_pc g = AtSend then Some (sent_by g) else None)"
  by (cases "g_pc g") (simp_all add: g_step_pc)

lemma g_step_exited_iff:
  "(g_pc (fst (g_step g m)) = Exited) = (g_pc g = AtSend \<or> g_pc g = Exited)"
  by (cases "g_pc g") (simp_all add: g_step_pc loop_head_def)

lemma g_step_sent_by: "g_pc g = AtSend \<Longrightarrow> sent_by (fst (g_step g m)) = sent_by g"
  by (simp add: g_step_pc sent_by_def)

lemma finish_one_exits:
  assumes "k < length (gs c)" "wf_g (gs c ! k)"
  shows "g_pc (gs (finish_one k c) ! k) = Exited"
  using assms
proof (induction "steps_left (gs c ! k)" arbitrary: c)
  case 0
  then have z: "steps_left (gs c ! k) = 0" by simp
  then have "g_pc (gs c ! k) = Exited" using 0(3) by (simp add: steps_left_0)
  then show ?case by (simp add: finish_one_def z)
next
  case (Suc n)
  let ?c = "sched_step k c"
  have g: "gs ?c ! k = fst (g_step (gs c ! k) (shared c))"
    using Suc.prems by (simp add: sched_step_same)
  have n: "n = steps_left (gs ?c ! k)"
    using Suc.hyps(2) Suc.prems by (simp add: g steps_left_g_step)
  have wf: "wf_g (gs ?c ! k)" using Suc.prems by (simp add: g wf_g_step)
  have "finish_one k c = (sched_step k ^^ Suc n) c"
    by (simp only: finish_one_def Suc.hyps(2))
  also have "\<dots> = (sched_step k ^^ n) ?c"
    by (simp only: funpow_Suc_right o_apply)
  also have "\<dots> = finish_one k ?c"
    by (simp only: finish_one_def n [symmetric])
  finally have "finish_one k c = finish_one k ?c" .
  moreover have "g_pc (gs (finish_one k ?c) ! k) = Exited"
    using Suc.hyps(1) [OF n _ wf] Suc.prems by simp
  ultimately show ?case by simp
qed

lemma exited_step: "exited k c \<Longrightarrow> exited k (sched_step j c)"
  by (cases "j = k") (auto simp: exited_def sched_step_Exited sched_step_other)

lemma n_goroutines_step: "n_goroutines n c \<Longrightarrow> n_goroutines n (sched_step k c)"
  by (simp add: n_goroutines_def)

lemma finish_one_length [simp]: "length (gs (finish_one k c)) = length (gs c)"
  using funpow_sched_step_pres [where P = "n_goroutines (length (gs c))" and c = c and k = k
      and n = "steps_left (gs c ! k)", OF n_goroutines_step]
  by (simp add: n_goroutines_def finish_one_def)

lemma fold_finish_one_exits:
  assumes "all_wf c" "\<forall>k\<in>set ks. k < length (gs c)" "k \<in> set ks"
  shows "exited k (fold finish_one ks c)"
  using assms
proof (induction ks arbitrary: c)
  case Nil
  then show ?case by simp
next
  case (Cons j ks)
  let ?c = "finish_one j c"
  have wf: "all_wf ?c"
    unfolding finish_one_def using all_wf_step Cons.prems(1) by (rule funpow_sched_step_pres)
  have len: "\<forall>k\<in>set ks. k < length (gs ?c)" using Cons.prems(2) by simp
  show ?case
  proof (cases "k \<in> set ks")
    case True
    then show ?thesis using Cons.IH [OF wf len] by simp
  next
    case False
    then have kj: "k = j" using Cons.prems(3) by simp
    have "wf_g (gs c ! j)" using Cons.prems(1,2) by (simp add: all_wf_def list_all_length)
    then have "exited j ?c"
      using Cons.prems(2) by (simp add: exited_def finish_one_exits)
    with exited_step have "exited j (fold finish_one ks ?c)"
      by (rule fold_finish_one_pres)
    then show ?thesis by (simp add: kj)
  qed
qed

lemma run_goroutines_length [simp]: "length (gs (run_goroutines sched c)) = length (gs c)"
  using run_goroutines_pres [where P = "n_goroutines (length (gs c))" and c = c
      and sched = sched, OF n_goroutines_step]
  by (simp add: n_goroutines_def)

lemma run_goroutines_exited:
  assumes "all_wf c" "k < length (gs c)"
  shows "g_pc (gs (run_goroutines sched c) ! k) = Exited"
proof -
  let ?c = "fold sched_step sched c"
  have wf: "all_wf ?c" using all_wf_step assms(1) by (rule fold_sched_step_pres)
  have len: "length (gs ?c) = length (gs c)"
    using fold_sched_step_pres [where P = "n_goroutines (length (gs c))" and c = c
        and sched = sched, OF n_goroutines_step]
    by (simp add: n_goroutines_def)
  have "exited k (fold finish_one [0..<length (gs ?c)] ?c)"
    using wf assms(2) len by (intro fold_finish_one_exits) simp_all
  then show ?thesis by (simp add: run_goroutines_def finish_def exited_def)
qed

lemma chan_inv_step:
  assumes "chan_inv c"
  shows "chan_inv (sched_step k c)"
proof (cases "k < length (gs c)")
  case False
  with assms show ?thesis by (simp add: sched_step_out)
next
  case k: True
  let ?g = "gs c ! k"
  let ?g' = "fst (g_step ?g (shared c))"
  from assms obtain ord where ord: "distinct ord"
    "set ord = {k. k < length (gs c) \<and> g_pc (gs c ! k) = Exited}"
    "rawPartial c = map (\<lambda>k. sent_by (gs c ! k)) ord"
    unfolding chan_inv_def by blast
  show ?thesis
  proof (cases "g_pc ?g = Exited")
    case True
    with k assms show ?thesis by (simp add: sched_step_Exited)
  next
    case nex: False
    then have notin: "k \<notin> set ord" using ord(2) by simp
    have same: "map (\<lambda>j. sent_by ((gs c)[k := ?g'] ! j)) ord = map (\<lambda>j. sent_by (gs c ! j)) ord"
    proof (intro map_cong refl)
      fix j assume "j \<in> set ord"
      with notin have "j \<noteq> k" by blast
      then show "sent_by ((gs c)[k := ?g'] ! j) = sent_by (gs c ! j)" by simp
    qed
    show ?thesis
    proof (cases "g_pc ?g = AtSend")
      case True
      have "distinct (ord @ [k])" using ord(1) notin by simp
      moreover have "set (ord @ [k])
          = {j. j < length (gs (sched_step k c)) \<and> g_pc (gs (sched_step k c) ! j) = Exited}"
        using k True ord(2) by (auto simp: sched_step_in nth_list_update g_step_exited_iff)
      moreover have "rawPartial (sched_step k c)
          = map (\<lambda>j. sent_by (gs (sched_step k c) ! j)) (ord @ [k])"
        using k True by (simp add: sched_step_in g_step_sent same ord(3) g_step_sent_by)
      ultimately show ?thesis unfolding chan_inv_def by blast
    next
      case False
      have "set ord
          = {j. j < length (gs (sched_step k c)) \<and> g_pc (gs (sched_step k c) ! j) = Exited}"
        using k False nex ord(2) by (auto simp: sched_step_in nth_list_update g_step_exited_iff)
      moreover have "rawPartial (sched_step k c)
          = map (\<lambda>j. sent_by (gs (sched_step k c) ! j)) ord"
        using k False by (simp add: sched_step_in g_step_sent same ord(3))
      ultimately show ?thesis unfolding chan_inv_def using ord(1) by blast
    qed
  qed
qed

lemma sort_by_id:
  assumes "distinct ord" "set ord = {0..<n}" "\<And>k. k < n \<Longrightarrow> tr_id (f k) = int k"
  shows "sort_key tr_id (map f ord) = map f [0..<n]"
proof (rule sort_key_inj_key_eq)
  have "mset ord = mset [0..<n]"
    using assms(1,2) set_eq_iff_mset_eq_distinct [of ord "[0..<n]"] by simp
  then show "mset (map f ord) = mset (map f [0..<n])"
    by (metis mset_map)
  show "inj_on tr_id (set (map f ord))"
    using assms(2,3) by (auto simp: inj_on_def)
  have "map tr_id (map f [0..<n]) = map int [0..<n]"
    using assms(3) by simp
  then show "sorted (map tr_id (map f [0..<n]))"
    by (simp add: sorted_map strict_sorted_iff[symmetric] del: map_map) 
qed

lemma statics_step: "statics S c \<Longrightarrow> statics S (sched_step k c)"
  by (simp add: statics_def static_step)

lemma run_goroutines_static:
  "map static (gs (run_goroutines sched c)) = map static (gs c)"
  using run_goroutines_pres [where P = "statics (map static (gs c))" and c = c
      and sched = sched, OF statics_step]
  by (simp add: statics_def)

lemma run_goroutines_nth_static:
  assumes "k < length (gs c)"
  shows "static (gs (run_goroutines sched c) ! k) = static (gs c ! k)"
proof -
  have "map static (gs (run_goroutines sched c)) ! k = map static (gs c) ! k"
    by (simp only: run_goroutines_static)
  then show ?thesis using assms by simp
qed

lemma static_spawn: "static (spawn rid tasks offset) = (rid, tasks, offset, length tasks)"
  by (simp add: static_def spawn_def loop_head_def)

lemma spawn_not_Exited: "g_pc (spawn rid tasks offset) \<noteq> Exited"
  by (simp add: spawn_def loop_head_def)

lemma start_conc_props:
  "length (gs (start_conc tasks runners m)) = nat runners"
  "all_wf (start_conc tasks runners m)"
  "chan_inv (start_conc tasks runners m)"
  "shared (start_conc tasks runners m) = m"
  "k < nat runners \<Longrightarrow> static (gs (start_conc tasks runners m) ! k)
      = (int k, zone tasks (int (length tasks)) runners (int (length tasks) div runners) k,
         int k, length (zone tasks (int (length tasks)) runners (int (length tasks) div runners) k))"
proof -
  show "length (gs (start_conc tasks runners m)) = nat runners"
    by (simp add: start_conc_def)
  show "all_wf (start_conc tasks runners m)"
    by (simp add: start_conc_def all_wf_def list_all_iff wf_spawn)
  show "shared (start_conc tasks runners m) = m"
    by (simp add: start_conc_def)
  show "chan_inv (start_conc tasks runners m)"
    unfolding chan_inv_def
    by (rule exI [of _ "[]"]) (simp add: start_conc_def spawn_not_Exited)
  show "k < nat runners \<Longrightarrow> static (gs (start_conc tasks runners m) ! k)
      = (int k, zone tasks (int (length tasks)) runners (int (length tasks) div runners) k,
         int k, length (zone tasks (int (length tasks)) runners (int (length tasks) div runners) k))"
    by (simp add: start_conc_def static_spawn)
qed

lemma run_goroutines_chan:
  assumes "chan_inv c" "all_wf c" "\<And>k. k < length (gs c) \<Longrightarrow> g_id (gs c ! k) = int k"
  shows "sort_key tr_id (take (length (gs c)) (rawPartial (run_goroutines sched c)))
     = map sent_by (gs (run_goroutines sched c))"
proof -
  let ?c = "run_goroutines sched c"
  let ?n = "length (gs c)"
  have "chan_inv ?c" using chan_inv_step assms(1) by (rule run_goroutines_pres)
  then obtain ord where ord: "distinct ord"
    "set ord = {k. k < length (gs ?c) \<and> g_pc (gs ?c ! k) = Exited}"
    "rawPartial ?c = map (\<lambda>k. sent_by (gs ?c ! k)) ord"
    unfolding chan_inv_def by blast
  have set: "set ord = {0..<?n}"
    using ord(2) run_goroutines_exited [OF assms(2)] by auto
  have "length ord = ?n"
    using distinct_card [OF ord(1)] set by simp
  then have tk: "take ?n (rawPartial ?c) = rawPartial ?c" by (simp add: ord(3))
  have id: "tr_id (sent_by (gs ?c ! k)) = int k" if "k < ?n" for k
  proof -
    have "static (gs ?c ! k) = static (gs c ! k)"
      using that by (rule run_goroutines_nth_static)
    then have "g_id (gs ?c ! k) = g_id (gs c ! k)" by (simp add: static_def)
    then show ?thesis using assms(3) that by (simp add: sent_by_def)
  qed
  have "sort_key tr_id (map (\<lambda>k. sent_by (gs ?c ! k)) ord)
        = map (\<lambda>k. sent_by (gs ?c ! k)) [0..<?n]"
    using ord(1) set id by (rule sort_by_id)
  also have "\<dots> = map sent_by (map (\<lambda>k. gs ?c ! k) [0..<length (gs ?c)])"
    by simp
  also have "\<dots> = map sent_by (gs ?c)"
    by (simp only: map_nth)
  finally have "sort_key tr_id (map (\<lambda>k. sent_by (gs ?c ! k)) ord) = map sent_by (gs ?c)" .
  then have "sort_key tr_id (rawPartial ?c) = map sent_by (gs ?c)"
    by (simp only: ord(3))
  then show ?thesis by (simp only: tk)
qed

lemma RunConc_body_eq:
  assumes "1 \<le> safeRunnerQuantity n (int (length (Tasks (prog m))))"
  shows "RunConc_body n sched m =
     (None,
      concat (map g_results (gs (run_goroutines sched
        (start_conc (Tasks (prog m)) (safeRunnerQuantity n (int (length (Tasks (prog m))))) m)))),
      shared (run_goroutines sched
        (start_conc (Tasks (prog m)) (safeRunnerQuantity n (int (length (Tasks (prog m))))) m)))"
proof -
  let ?ts = "Tasks (prog m)"
  let ?L = "int (length ?ts)"
  let ?w = "safeRunnerQuantity n ?L"
  let ?ini = "start_conc ?ts ?w m"
  let ?c = "run_goroutines sched ?ini"
  have sp: "0 \<le> ?L div ?w" "?w * (?L div ?w) \<le> ?L"
    using assms span_mult_le by (auto simp: pos_imp_zdiv_nonneg_iff)
  have dv: "go_div ?L ?w = Inr (?L div ?w)"
    using assms by (simp add: go_div_pos)
  have ds: "dispatch ?ts ?L ?w (?L div ?w) 0 [] = Inr (gs ?ini)"
    using dispatch_eq [of 0 ?w "?L div ?w" ?L ?ts "[]"] assms sp
    by (simp add: start_conc_def)
  have c0: "\<lparr>gs = gs ?ini, rawPartial = [], shared = m\<rparr> = ?ini"
    by (simp add: start_conc_def)
  have ids: "g_id (gs ?ini ! k) = int k" if "k < length (gs ?ini)" for k
    using that start_conc_props(5) [of k ?w ?ts m]
    by (simp add: start_conc_props(1) static_def)
  have "sort_key tr_id (take (length (gs ?ini)) (rawPartial ?c)) = map sent_by (gs ?c)"
    using start_conc_props(3) start_conc_props(2) ids by (rule run_goroutines_chan)
  then have srt: "sort_key tr_id (take (nat ?w) (rawPartial ?c)) = map sent_by (gs ?c)"
    by (simp add: start_conc_props(1))
  have "concat (map tr_res (map sent_by (gs ?c))) = concat (map g_results (gs ?c))"
    by (simp add: sent_by_def comp_def)
  then show ?thesis
    by (simp add: RunConc_body_def Let_def dv ds c0 srt)
qed

lemma g_step_trace: "trace (fst (snd (g_step g m))) = trace m @ step_events g m"
  by (cases "g_pc g")
    (simp_all add: g_step_pc step_events_def call_PreHook_trace call_PostHook_trace
      sleep_between_trace call_Task_def split: prod.splits)

lemma g_step_prog: "prog (fst (snd (g_step g m))) = prog m"
  by (cases "g_pc g") (simp_all add: g_step_pc)

lemma sched_step_trace:
  "k < length (gs c) \<Longrightarrow>
     trace (shared (sched_step k c)) = trace (shared c) @ step_events (gs c ! k) (shared c)"
  by (simp add: sched_step_in g_step_trace)

lemma sched_step_prog: "prog (shared (sched_step k c)) = prog (shared c)"
  by (cases "k < length (gs c)") (simp_all add: sched_step_in sched_step_out g_step_prog)

lemma prog_is_step: "prog_is p c \<Longrightarrow> prog_is p (sched_step k c)"
  by (simp add: prog_is_def sched_step_prog)

lemma run_goroutines_prog: "prog (shared (run_goroutines sched c)) = prog (shared c)"
  using run_goroutines_pres [where P = "prog_is (prog (shared c))" and c = c
      and sched = sched, OF prog_is_step]
  by (simp add: prog_is_def)

lemma call_Task_returns: "returns f v \<Longrightarrow> fst (call_Task f i m) = v"
  by (simp add: call_Task_def returns_def)

lemma returns_unique: "returns f v \<Longrightarrow> returns f v' \<Longrightarrow> v' = v"
  by (simp add: returns_def)

lemma g_step_tasks: "g_tasks (fst (g_step g m)) = g_tasks g"
  using static_g_step [of g m] by (simp add: static_def)

lemma g_step_results_other:
  "g_pc g \<noteq> AtTask \<Longrightarrow> g_results (fst (g_step g m)) = g_results g"
  by (cases "g_pc g") (simp_all add: g_step_pc loop_head_def)

lemma g_step_known_other:
  "wf_g g \<Longrightarrow> g_pc g \<noteq> AtTask \<Longrightarrow> known (fst (g_step g m)) = known g"
  by (cases "g_pc g") (simp_all add: g_step_pc loop_head_def known_def wf_g_def)

lemma pure_g_step:
  assumes "pure_g g"
  shows "pure_g (fst (g_step g m))"
proof (cases "g_pc g = AtTask")
  case AtTask: True
  have wf: "wf_g g" and i: "g_i g < length (g_tasks g)"
    using assms AtTask by (simp_all add: pure_g_def wf_g_def)
  obtain v where v: "returns (g_tasks g ! g_i g) v"
    using assms i unfolding pure_g_def by blast
  have c: "fst (call_Task (g_tasks g ! g_i g) (g_i g) m) = v"
    using v by (rule call_Task_returns)
  have r: "g_results (fst (g_step g m)) = (g_results g)[g_i g := v]"
    and k: "known (fst (g_step g m)) = Suc (g_i g)"
    using AtTask by (simp_all add: g_step_pc c known_def)
  have "returns (g_tasks g ! j) ((g_results g)[g_i g := v] ! j)" if "j < Suc (g_i g)" for j
  proof (cases "j = g_i g")
    case True
    then show ?thesis using v wf i by (simp add: wf_g_def)
  next
    case False
    then have "j < known g" using that AtTask by (simp add: known_def)
    then show ?thesis using assms False unfolding pure_g_def by simp
  qed
  then have 3: "\<forall>j<known (fst (g_step g m)).
      returns (g_tasks (fst (g_step g m)) ! j) (g_results (fst (g_step g m)) ! j)"
    by (simp only: r k g_step_tasks) blast
  have 2: "\<forall>j<length (g_tasks (fst (g_step g m))). \<exists>v. returns (g_tasks (fst (g_step g m)) ! j) v"
    using assms by (simp only: g_step_tasks pure_g_def) blast
  show ?thesis
    unfolding pure_g_def using wf_g_step [OF wf, of m] 2 3 by blast
next
  case False
  have wf: "wf_g g" using assms by (simp add: pure_g_def)
  have 3: "\<forall>j<known (fst (g_step g m)).
      returns (g_tasks (fst (g_step g m)) ! j) (g_results (fst (g_step g m)) ! j)"
    using assms
    by (simp only: g_step_known_other [OF wf False] g_step_results_other [OF False]
        g_step_tasks pure_g_def) blast
  have 2: "\<forall>j<length (g_tasks (fst (g_step g m))). \<exists>v. returns (g_tasks (fst (g_step g m)) ! j) v"
    using assms by (simp only: g_step_tasks pure_g_def) blast
  show ?thesis
    unfolding pure_g_def using wf_g_step [OF wf, of m] 2 3 by blast
qed

lemma all_pure_step: "all_pure c \<Longrightarrow> all_pure (sched_step k c)"
proof (cases "k < length (gs c)")
  case True
  assume a: "all_pure c"
  then have "pure_g (fst (g_step (gs c ! k) (shared c)))"
    using True by (simp add: all_pure_def list_all_length pure_g_step)
  with a show ?thesis
    using True by (auto simp: all_pure_def list_all_length sched_step_in nth_list_update)
next
  case False
  assume "all_pure c"
  with False show ?thesis by (simp add: sched_step_out)
qed

lemma pure_g_Exited:
  assumes "pure_g g" "g_pc g = Exited"
  shows "list_all2 returns (g_tasks g) (g_results g)"
proof -
  have len: "length (g_tasks g) = length (g_results g)"
    using assms(1) by (simp add: pure_g_def wf_g_def)
  have k: "known g = length (g_tasks g)"
    using assms(2) by (simp add: known_def)
  have "\<forall>j<length (g_tasks g). returns (g_tasks g ! j) (g_results g ! j)"
    using assms(1) unfolding pure_g_def k by blast
  with len show ?thesis by (simp only: list_all2_conv_all_nth)
qed

lemma list_all2_concat:
  "list_all2 (list_all2 R) xss yss \<Longrightarrow> list_all2 R (concat xss) (concat yss)"
  by (induction rule: list_all2_induct) (simp_all add: list_all2_appendI)

lemma list_all2_returns_unique:
  "list_all2 returns ts vs \<Longrightarrow> list_all2 returns ts rs \<Longrightarrow> rs = vs"
proof (induction arbitrary: rs rule: list_all2_induct)
  case Nil
  then show ?case by simp
next
  case (Cons t ts v vs)
  from Cons.prems obtain r rs' where rs: "rs = r # rs'" "returns t r" "list_all2 returns ts rs'"
    by (cases rs) simp_all
  have "r = v" using Cons.hyps(1) rs(2) by (rule returns_unique)
  moreover have "rs' = vs" using rs(3) by (rule Cons.IH)
  ultimately show ?case by (simp add: rs(1))
qed

lemma RunConc_eq:
  "RunConc n sched m =
     (case fst (RunConc_body n sched (call_OnStart m)) of
        Some e \<Rightarrow> Inl e
      | None \<Rightarrow>
          Inr (fst (call_OnFinish (fst (snd (RunConc_body n sched (call_OnStart m))))
                 (snd (snd (RunConc_body n sched (call_OnStart m)))))),
      snd (call_OnFinish (fst (snd (RunConc_body n sched (call_OnStart m))))
             (snd (snd (RunConc_body n sched (call_OnStart m))))))"
  by (cases "RunConc_body n sched (call_OnStart m)")
    (simp add: RunConc_def Let_def split: option.splits prod.splits)

lemma set_zone: "set (zone xs len runners span k) \<subseteq> set xs"
  unfolding zone_def by (meson set_take_subset set_drop_subset subset_trans)

lemma pure_g_spawn:
  assumes "\<forall>t\<in>set tasks. \<exists>v. returns t v"
  shows "pure_g (spawn rid tasks offset)"
proof -
  have t: "g_tasks (spawn rid tasks offset) = tasks"
    by (simp add: spawn_def loop_head_def)
  have "known (spawn rid tasks offset) = 0"
    by (simp add: spawn_def loop_head_def known_def)
  moreover have "\<forall>j<length tasks. \<exists>v. returns (tasks ! j) v"
    using assms by simp
  ultimately show ?thesis
    unfolding pure_g_def t using wf_spawn [of rid tasks offset] by simp
qed

lemma all_pure_start_conc:
  assumes "\<forall>t\<in>set tasks. \<exists>v. returns t v"
  shows "all_pure (start_conc tasks runners m)"
proof -
  have "pure_g (spawn (int k) (zone tasks len runners span k) (int k))" for k len span
    using assms set_zone [of tasks len runners span k] by (intro pure_g_spawn) blast
  then show ?thesis by (simp add: all_pure_def start_conc_def list_all_iff)
qed

lemma list_all2_returns_pure:
  assumes "list_all2 returns ts vs"
  shows "\<forall>t\<in>set ts. \<exists>v. returns t v"
  using assms by (induction rule: list_all2_induct) auto

lemma run_goroutines_tasks:
  assumes "1 \<le> runners"
  shows "concat (map g_tasks (gs (run_goroutines sched (start_conc tasks runners m)))) = tasks"
proof -
  let ?ini = "start_conc tasks runners m"
  have g: "g_tasks = fst \<circ> snd \<circ> static"
    by (simp add: fun_eq_iff static_def)
  have "map g_tasks (gs (run_goroutines sched ?ini)) = map g_tasks (gs ?ini)"
    unfolding g by (simp only: map_map [symmetric] run_goroutines_static)
  also have "\<dots> = map (zone tasks (int (length tasks)) runners (int (length tasks) div runners))
      [0..<nat runners]"
    by (simp add: start_conc_def spawn_def loop_head_def comp_def)
  finally show ?thesis using assms by (simp only: concat_zones)
qed

lemma RunConc_body_pure:
  assumes "list_all2 returns (Tasks (prog m)) vs"
    "1 \<le> safeRunnerQuantity n (int (length (Tasks (prog m))))"
  shows "fst (RunConc_body n sched m) = None" "fst (snd (RunConc_body n sched m)) = vs"
proof -
  let ?ts = "Tasks (prog m)"
  let ?w = "safeRunnerQuantity n (int (length ?ts))"
  let ?ini = "start_conc ?ts ?w m"
  let ?c = "run_goroutines sched ?ini"
  show "fst (RunConc_body n sched m) = None"
    by (simp add: RunConc_body_eq [OF assms(2)])
  have pure: "all_pure ?c"
    using all_pure_step all_pure_start_conc [OF list_all2_returns_pure [OF assms(1)]]
    by (rule run_goroutines_pres)
  have "list_all2 returns (g_tasks (gs ?c ! k)) (g_results (gs ?c ! k))" if "k < length (gs ?c)" for k
  proof -
    have "pure_g (gs ?c ! k)" using pure that by (simp add: all_pure_def list_all_length)
    moreover have "g_pc (gs ?c ! k) = Exited"
      using that by (intro run_goroutines_exited start_conc_props(2)) simp
    ultimately show ?thesis by (rule pure_g_Exited)
  qed
  then have "list_all2 (list_all2 returns) (map g_tasks (gs ?c)) (map g_results (gs ?c))"
    by (simp add: list_all2_conv_all_nth)
  then have "list_all2 returns (concat (map g_tasks (gs ?c))) (concat (map g_results (gs ?c)))"
    by (rule list_all2_concat)
  then have "list_all2 returns ?ts (concat (map g_results (gs ?c)))"
    by (simp only: run_goroutines_tasks [OF assms(2)])
  with assms(1) have "concat (map g_results (gs ?c)) = vs"
    by (rule list_all2_returns_unique)
  then show "fst (snd (RunConc_body n sched m)) = vs"
    by (simp add: RunConc_body_eq [OF assms(2)])
qed

lemma RunConc_ok:
  assumes "1 \<le> safeRunnerQuantity n (int (length (Tasks (prog m))))"
  shows "RunConc n sched m =
     (Inr (fst (call_OnFinish
        (concat (map g_results (gs (run_goroutines sched
           (start_conc (Tasks (prog m)) (safeRunnerQuantity n (int (length (Tasks (prog m)))))
              (call_OnStart m))))))
        (shared (run_goroutines sched
           (start_conc (Tasks (prog m)) (safeRunnerQuantity n (int (length (Tasks (prog m)))))
              (call_OnStart m)))))),
      snd (call_OnFinish
        (concat (map g_results (gs (run_goroutines sched
           (start_conc (Tasks (prog m)) (safeRunnerQuantity n (int (length (Tasks (prog m)))))
              (call_OnStart m))))))
        (shared (run_goroutines sched
           (start_conc (Tasks (prog m)) (safeRunnerQuantity n (int (length (Tasks (prog m)))))
              (call_OnStart m))))))"
  using RunConc_body_eq [of n "call_OnStart m" sched] assms by (simp add: RunConc_eq)

lemma RunConc_pure:
  assumes "list_all2 returns (Tasks (prog m)) vs"
    "1 \<le> safeRunnerQuantity n (int (length (Tasks (prog m))))"
    "keeps_results (prog m)"
  shows "fst (RunConc n sched m) = Inr vs"
proof -
  let ?c = "run_goroutines sched (start_conc (Tasks (prog m))
      (safeRunnerQuantity n (int (length (Tasks (prog m))))) (call_OnStart m))"
  have "keeps_results (prog (shared ?c))"
    using assms(3) by (simp add: run_goroutines_prog start_conc_props(4))
  then have "fst (call_OnFinish vs (shared ?c)) = vs" by (rule call_OnFinish_keeps)
  moreover have "concat (map g_results (gs ?c)) = vs"
    using RunConc_body_pure(2) [of "call_OnStart m" vs n sched] assms(1,2)
      RunConc_body_eq [of n "call_OnStart m" sched]
    by simp
  ultimately show ?thesis by (simp add: RunConc_ok [OF assms(2)])
qed

lemma pre_args_append [simp]: "pre_args (xs @ ys) = pre_args xs @ pre_args ys"
  by (simp add: pre_args_def)

lemma post_args_append [simp]: "post_args (xs @ ys) = post_args xs @ post_args ys"
  by (simp add: post_args_def)

lemma pre_args_Nil [simp]: "pre_args [] = []"
  by (simp add: pre_args_def)

lemma post_args_Nil [simp]: "post_args [] = []"
  by (simp add: post_args_def)

lemma step_events_sf: "filter is_start_finish (step_events g m) = []"
  by (cases "g_pc g") (simp_all add: step_events_def split: option.splits)

lemma step_events_pre:
  "PreHook (prog m) = Some h \<Longrightarrow>
     pre_args (step_events g m) = (if g_pc g = AtPre then [int (g_i g) + g_offset g] else [])"
  by (cases "g_pc g") (simp_all add: step_events_def pre_args_def split: option.splits)

lemma step_events_post:
  "PostHook (prog m) = Some h \<Longrightarrow>
     post_args (step_events g m) = (if g_pc g = AtPost then [int (g_i g) + g_offset g] else [])"
  by (cases "g_pc g") (simp_all add: step_events_def post_args_def split: option.splits)

lemma g_step_offset: "g_offset (fst (g_step g m)) = g_offset g"
  using static_g_step [of g m] by (simp add: static_def)

lemma rem_pre_step:
  assumes "wf_g g"
  shows "mset (if g_pc g = AtPre then [int (g_i g) + g_offset g] else [])
           + rem_pre (fst (g_step g m)) = rem_pre g"
proof (cases "g_pc g")
  case AtPre
  then have "g_i g < length (g_tasks g)" using assms by (simp add: wf_g_def)
  then have "[g_i g..<length (g_tasks g)] = g_i g # [Suc (g_i g)..<length (g_tasks g)]"
    by (simp add: upt_conv_Cons)
  then show ?thesis using AtPre by (simp add: rem_pre_def pre_from_def g_step_pc)
next
  case AtPause
  then have "g_i g < length (g_tasks g)" using assms by (simp add: wf_g_def)
  then have "pre_from (fst (g_step g m)) = Suc (g_i g)"
    using AtPause by (auto simp: g_step_pc loop_head_def pre_from_def)
  then show ?thesis
    using AtPause by (simp add: rem_pre_def g_step_tasks g_step_offset) (simp add: pre_from_def)
qed (simp_all add: rem_pre_def pre_from_def g_step_pc)

lemma rem_post_step:
  assumes "wf_g g"
  shows "mset (if g_pc g = AtPost then [int (g_i g) + g_offset g] else [])
           + rem_post (fst (g_step g m)) = rem_post g"
proof (cases "g_pc g")
  case AtPost
  then have "g_i g < length (g_tasks g)" using assms by (simp add: wf_g_def)
  then have "[g_i g..<length (g_tasks g)] = g_i g # [Suc (g_i g)..<length (g_tasks g)]"
    by (simp add: upt_conv_Cons)
  then show ?thesis using AtPost by (simp add: rem_post_def post_from_def g_step_pc)
next
  case AtPause
  then have "g_i g < length (g_tasks g)" using assms by (simp add: wf_g_def)
  then have "post_from (fst (g_step g m)) = Suc (g_i g)"
    using AtPause by (auto simp: g_step_pc loop_head_def post_from_def)
  then show ?thesis
    using AtPause by (simp add: rem_post_def g_step_tasks g_step_offset) (simp add: post_from_def)
qed (simp_all add: rem_post_def post_from_def g_step_pc)

lemma sum_list_map_update:
  fixes f :: "'a \<Rightarrow> 'b::comm_monoid_add"
  shows "k < length xs \<Longrightarrow>
     sum_list (map f (xs[k := y])) + f (xs ! k) = sum_list (map f xs) + f y"
proof (induction xs arbitrary: k)
  case Nil
  then show ?case by simp
next
  case (Cons x xs)
  show ?case
  proof (cases k)
    case 0
    then show ?thesis by (simp add: ac_simps)
  next
    case (Suc j)
    then have "sum_list (map f (xs[j := y])) + f (xs ! j) = sum_list (map f xs) + f y"
      using Cons by simp
    then show ?thesis using Suc by (simp add: add.assoc)
  qed
qed

lemma sum_step:
  fixes r :: "'a \<Rightarrow> int multiset"
  assumes "k < length xs" "E + r y = r (xs ! k)"
  shows "(M + E) + sum_list (map r (xs[k := y])) = M + sum_list (map r xs)"
proof -
  have "(M + E) + sum_list (map r (xs[k := y])) + r (xs ! k)
        = M + E + (sum_list (map r xs) + r y)"
    using sum_list_map_update [OF assms(1), of r y] by (simp add: add.assoc)
  also have "\<dots> = M + sum_list (map r xs) + r (xs ! k)"
    using assms(2) by (simp add: ac_simps)
  finally show ?thesis by simp
qed

lemma hooks_inv_step:
  assumes "hooks_inv p tr0 A B c" "PreHook p = Some h1" "PostHook p = Some h2"
  shows "hooks_inv p tr0 A B (sched_step k c)"
proof (cases "k < length (gs c)")
  case False
  with assms(1) show ?thesis by (simp add: sched_step_out)
next
  case k: True
  let ?g = "gs c ! k"
  let ?g' = "fst (g_step ?g (shared c))"
  let ?es = "step_events ?g (shared c)"
  from assms(1) obtain mid where p: "prog (shared c) = p" and wf: "all_wf c"
    and mid: "trace (shared c) = tr0 @ mid" "filter is_start_finish mid = []"
      "mset (pre_args mid) + sum_list (map rem_pre (gs c)) = A"
      "mset (post_args mid) + sum_list (map rem_post (gs c)) = B"
    unfolding hooks_inv_def by blast
  have wfg: "wf_g ?g" using wf k by (simp add: all_wf_def list_all_length)
  have gs': "gs (sched_step k c) = (gs c)[k := ?g']" using k by (simp add: sched_step_in)
  have 1: "trace (shared (sched_step k c)) = tr0 @ (mid @ ?es)"
    using k by (simp add: sched_step_trace mid(1))
  have 2: "filter is_start_finish (mid @ ?es) = []"
    by (simp add: mid(2) step_events_sf)
  have "mset (pre_args ?es) + rem_pre ?g' = rem_pre ?g"
    using rem_pre_step [OF wfg, of "shared c"] step_events_pre [of "shared c" h1 ?g]
      p assms(2) by simp
  then have 3: "mset (pre_args (mid @ ?es)) + sum_list (map rem_pre (gs (sched_step k c))) = A"
    using sum_step [OF k, of "mset (pre_args ?es)" rem_pre ?g' "mset (pre_args mid)"] mid(3)
    by (simp add: gs')
  have "mset (post_args ?es) + rem_post ?g' = rem_post ?g"
    using rem_post_step [OF wfg, of "shared c"] step_events_post [of "shared c" h2 ?g]
      p assms(3) by simp
  then have 4: "mset (post_args (mid @ ?es)) + sum_list (map rem_post (gs (sched_step k c))) = B"
    using sum_step [OF k, of "mset (post_args ?es)" rem_post ?g' "mset (post_args mid)"] mid(4)
    by (simp add: gs')
  have "prog (shared (sched_step k c)) = p" by (simp add: sched_step_prog p)
  moreover have "all_wf (sched_step k c)" using wf by (rule all_wf_step)
  ultimately show ?thesis unfolding hooks_inv_def using 1 2 3 4 by blast
qed

lemma rem_spawn:
  "rem_pre (spawn rid tasks offset) = mset (map (\<lambda>j. int j + offset) [0..<length tasks])"
  "rem_post (spawn rid tasks offset) = mset (map (\<lambda>j. int j + offset) [0..<length tasks])"
  by (auto simp: rem_pre_def rem_post_def pre_from_def post_from_def spawn_def loop_head_def)

lemma rem_start_conc:
  "sum_list (map rem_pre (gs (start_conc tasks runners m))) = conc_hook_args tasks runners"
  "sum_list (map rem_post (gs (start_conc tasks runners m))) = conc_hook_args tasks runners"
  by (simp_all add: start_conc_def conc_hook_args_def comp_def rem_spawn)

lemma rem_Exited: "g_pc g = Exited \<Longrightarrow> rem_pre g = {#} \<and> rem_post g = {#}"
  by (simp add: rem_pre_def rem_post_def pre_from_def post_from_def)

lemma sum_list_all_empty:
  "(\<And>x. x \<in> set xs \<Longrightarrow> f x = ({#} :: int multiset)) \<Longrightarrow> sum_list (map f xs) = {#}"
  by (induction xs) simp_all

lemma size_sum_list_mset: "size (sum_list (Ms :: int multiset list)) = sum_list (map size Ms)"
  by (induction Ms) simp_all

lemma size_conc_hook_args:
  assumes "1 \<le> runners"
  shows "size (conc_hook_args tasks runners) = length tasks"
proof -
  let ?z = "zone tasks (int (length tasks)) runners (int (length tasks) div runners)"
  have "size (conc_hook_args tasks runners) = sum_list (map (\<lambda>k. length (?z k)) [0..<nat runners])"
    by (simp add: conc_hook_args_def size_sum_list_mset comp_def)
  also have "\<dots> = length (concat (map ?z [0..<nat runners]))"
    by (simp add: length_concat comp_def)
  also have "\<dots> = length tasks"
    using assms by (simp only: concat_zones)
  finally show ?thesis .
qed

lemma run_goroutines_hooks:
  assumes "PreHook (prog m) = Some h1" "PostHook (prog m) = Some h2"
  shows "\<exists>mid. trace (shared (run_goroutines sched (start_conc tasks runners m))) = trace m @ mid
     \<and> filter is_start_finish mid = []
     \<and> mset (pre_args mid) = conc_hook_args tasks runners
     \<and> mset (post_args mid) = conc_hook_args tasks runners"
proof -
  let ?ini = "start_conc tasks runners m"
  let ?c = "run_goroutines sched ?ini"
  let ?A = "conc_hook_args tasks runners"
  have step: "hooks_inv (prog m) (trace m) ?A ?A c
      \<Longrightarrow> hooks_inv (prog m) (trace m) ?A ?A (sched_step k c)" for k c
    using assms by (intro hooks_inv_step)
  have "hooks_inv (prog m) (trace m) ?A ?A ?ini"
    unfolding hooks_inv_def
    using start_conc_props(2) [of tasks runners m] rem_start_conc [of tasks runners m]
    by (simp add: start_conc_props(4))
  with step have "hooks_inv (prog m) (trace m) ?A ?A ?c"
    by (rule run_goroutines_pres)
  then obtain mid where mid: "trace (shared ?c) = trace m @ mid"
      "filter is_start_finish mid = []"
      "mset (pre_args mid) + sum_list (map rem_pre (gs ?c)) = ?A"
      "mset (post_args mid) + sum_list (map rem_post (gs ?c)) = ?A"
    unfolding hooks_inv_def by blast
  have ex: "g_pc g = Exited" if "g \<in> set (gs ?c)" for g
  proof -
    from that obtain k where "k < length (gs ?c)" "g = gs ?c ! k"
      by (auto simp: in_set_conv_nth)
    then show ?thesis
      using run_goroutines_exited [OF start_conc_props(2), of k tasks runners m sched] by simp
  qed
  have "sum_list (map rem_pre (gs ?c)) = {#}"
    using ex by (intro sum_list_all_empty) (simp add: rem_Exited)
  moreover have "sum_list (map rem_post (gs ?c)) = {#}"
    using ex by (intro sum_list_all_empty) (simp add: rem_Exited)
  ultimately show ?thesis using mid by auto
qed

lemma run_goroutines_results_length:
  assumes "1 \<le> runners"
  shows "length (concat (map g_results (gs (run_goroutines sched (start_conc tasks runners m)))))
     = length tasks"
proof -
  let ?c = "run_goroutines sched (start_conc tasks runners m)"
  have "all_wf ?c"
    using all_wf_step start_conc_props(2) by (rule run_goroutines_pres)
  then have "map (length \<circ> g_results) (gs ?c) = map (length \<circ> g_tasks) (gs ?c)"
    by (simp add: all_wf_def list_all_iff wf_g_def)
  then have "length (concat (map g_results (gs ?c))) = length (concat (map g_tasks (gs ?c)))"
    by (simp only: length_concat map_map)
  then show ?thesis using assms by (simp only: run_goroutines_tasks)
qed

lemma pre_args_concat: "pre_args (concat xss) = concat (map pre_args xss)"
  by (induction xss) simp_all

lemma post_args_concat: "post_args (concat xss) = concat (map post_args xss)"
  by (induction xss) simp_all

lemma pre_args_iteration_events:
  "pre_args (iteration_events p offset l i v)
     = (case PreHook p of None \<Rightarrow> [] | Some h \<Rightarrow> [int i + offset])"
  by (simp add: iteration_events_def pre_args_def split: option.splits)

lemma post_args_iteration_events:
  "post_args (iteration_events p offset l i v)
     = (case PostHook p of None \<Rightarrow> [] | Some h \<Rightarrow> [int i + offset])"
  by (simp add: iteration_events_def post_args_def split: option.splits)

lemma concat_singletons: "concat (map (\<lambda>x. [f x]) xs) = map f xs"
  by (induction xs) simp_all

lemma Run_trace_hooks:
  assumes "OnStart (prog m) = Some a" "PreHook (prog m) = Some b"
    "PostHook (prog m) = Some c" "OnFinish (prog m) = Some d"
  shows "\<exists>mid. trace (snd (Run m)) = trace m @ [EvOnStart] @ mid
         @ [EvOnFinish (fst (run (Tasks (prog m)) 0 (call_OnStart m)))]
     \<and> trace (snd (run (Tasks (prog m)) 0 (call_OnStart m))) = trace m @ [EvOnStart] @ mid
     \<and> filter is_start_finish mid = []
     \<and> pre_args mid = map int [0..<length (Tasks (prog m))]
     \<and> post_args mid = map int [0..<length (Tasks (prog m))]"
proof -
  let ?ts = "Tasks (prog m)"
  let ?m1 = "call_OnStart m"
  let ?r = "fst (run ?ts 0 ?m1)"
  let ?mid = "concat (map (\<lambda>i. iteration_events (prog m) 0 (length ?ts) i (?r ! i))
      [0..<length ?ts])"
  have 0: "trace (snd (run ?ts 0 ?m1)) = trace m @ [EvOnStart] @ ?mid"
    using assms(1) by (simp add: run_trace call_OnStart_trace)
  then have 1: "trace (snd (Run m)) = trace m @ [EvOnStart] @ ?mid @ [EvOnFinish ?r]"
    using assms(4) by (simp add: Run_eq call_OnFinish_trace run_prog)
  have 2: "filter is_start_finish ?mid = []"
    by (simp add: filter_concat_map filter_start_finish_iteration_events)
  have 3: "pre_args ?mid = map int [0..<length ?ts]"
    using assms(2)
    by (simp add: pre_args_concat pre_args_iteration_events comp_def concat_singletons)
  have 4: "post_args ?mid = map int [0..<length ?ts]"
    using assms(3)
    by (simp add: post_args_concat post_args_iteration_events comp_def concat_singletons)
  show ?thesis using 0 1 2 3 4 by blast
qed

lemma safeRunnerQuantity_zero:
  "\<not> 1 \<le> safeRunnerQuantity n (int L) \<Longrightarrow> L = 0 \<and> 1 \<le> n \<and> safeRunnerQuantity n (int L) = 0"
  by (auto simp: safeRunnerQuantity_def split: if_splits)

lemma RunConc_body_panic:
  assumes "\<not> 1 \<le> safeRunnerQuantity n (int (length (Tasks (prog m))))"
  shows "RunConc_body n sched m = (Some DivideByZero, [], m)"
proof -
  have "safeRunnerQuantity n (int (length (Tasks (prog m)))) = 0"
    using safeRunnerQuantity_zero [OF assms] by blast
  then show ?thesis by (simp add: RunConc_body_def Let_def go_div_def)
qed

lemma RunConc_panic:
  assumes "\<not> 1 \<le> safeRunnerQuantity n (int (length (Tasks (prog m))))"
  shows "RunConc n sched m = (Inl DivideByZero, snd (call_OnFinish [] (call_OnStart m)))"
  using RunConc_body_panic [of n "call_OnStart m" sched] assms by (simp add: RunConc_eq)

lemma RunConc_trace_args:
  assumes "OnStart (prog m) = Some a" "PreHook (prog m) = Some b"
    "PostHook (prog m) = Some c" "OnFinish (prog m) = Some d"
    "1 \<le> safeRunnerQuantity n (int (length (Tasks (prog m))))"
  shows "\<exists>mid r m2. trace (snd (RunConc n sched m)) = trace m @ [EvOnStart] @ mid @ [EvOnFinish r]
     \<and> filter is_start_finish mid = []
     \<and> mset (pre_args mid)
         = conc_hook_args (Tasks (prog m)) (safeRunnerQuantity n (int (length (Tasks (prog m)))))
     \<and> mset (post_args mid)
         = conc_hook_args (Tasks (prog m)) (safeRunnerQuantity n (int (length (Tasks (prog m)))))
     \<and> length r = length (Tasks (prog m))
     \<and> m2 = shared (run_goroutines sched (start_conc (Tasks (prog m))
          (safeRunnerQuantity n (int (length (Tasks (prog m))))) (call_OnStart m)))
     \<and> trace m2 = trace m @ [EvOnStart] @ mid
     \<and> RunConc n sched m = (Inr (fst (call_OnFinish r m2)), snd (call_OnFinish r m2))"
proof -
  let ?ts = "Tasks (prog m)"
  let ?w = "safeRunnerQuantity n (int (length ?ts))"
  let ?m1 = "call_OnStart m"
  let ?c = "run_goroutines sched (start_conc ?ts ?w ?m1)"
  let ?r = "concat (map g_results (gs ?c))"
  have ok: "RunConc n sched m
      = (Inr (fst (call_OnFinish ?r (shared ?c))), snd (call_OnFinish ?r (shared ?c)))"
    using assms(5) by (rule RunConc_ok)
  obtain mid where mid: "trace (shared ?c) = trace ?m1 @ mid"
      "filter is_start_finish mid = []"
      "mset (pre_args mid) = conc_hook_args ?ts ?w"
      "mset (post_args mid) = conc_hook_args ?ts ?w"
    using run_goroutines_hooks [of ?m1 b c sched ?ts ?w] assms(2,3) by auto
  have 0: "trace (shared ?c) = trace m @ [EvOnStart] @ mid"
    using assms(1) by (simp add: mid(1) call_OnStart_trace)
  have 1: "trace (snd (RunConc n sched m)) = trace m @ [EvOnStart] @ mid @ [EvOnFinish ?r]"
    using assms(4)
    by (simp add: ok call_OnFinish_trace run_goroutines_prog start_conc_props(4) 0)
  have 5: "length ?r = length ?ts"
    using assms(5) by (rule run_goroutines_results_length)
  show ?thesis using 0 1 mid(2,3,4) 5 ok by blast
qed

lemma RunConc_trace_panic:
  assumes "OnStart (prog m) = Some a" "OnFinish (prog m) = Some d"
    "\<not> 1 \<le> safeRunnerQuantity n (int (length (Tasks (prog m))))"
  shows "trace (snd (RunConc n sched m)) = trace m @ [EvOnStart] @ [] @ [EvOnFinish []]"
    "fst (RunConc n sched m) = Inl DivideByZero" "length (Tasks (prog m)) = 0"
proof -
  show "length (Tasks (prog m)) = 0"
    using safeRunnerQuantity_zero [OF assms(3)] by simp
  show "trace (snd (RunConc n sched m)) = trace m @ [EvOnStart] @ [] @ [EvOnFinish []]"
    using assms(1,2)
    by (simp add: RunConc_panic [OF assms(3)] call_OnFinish_trace call_OnStart_trace)
  show "fst (RunConc n sched m) = Inl DivideByZero"
    by (simp add: RunConc_panic [OF assms(3)])
qed

lemma finish_one_unroll:
  assumes "k < length (gs c)" "wf_g (gs c ! k)"
  shows "finish_one k (sched_step k c) = finish_one k c"
proof (cases "steps_left (gs c ! k)")
  case 0
  then have "g_pc (gs c ! k) = Exited" using assms(2) by (simp add: steps_left_0)
  then show ?thesis using assms(1) by (simp add: sched_step_Exited)
next
  case (Suc n)
  let ?c = "sched_step k c"
  have "steps_left (gs ?c ! k) = n"
    using Suc assms by (simp add: sched_step_same steps_left_g_step)
  then have "finish_one k ?c = (sched_step k ^^ n) ?c"
    by (simp only: finish_one_def)
  also have "\<dots> = (sched_step k ^^ Suc n) c"
    by (simp only: funpow_Suc_right o_apply)
  also have "\<dots> = finish_one k c"
    by (simp only: finish_one_def Suc)
  finally show ?thesis .
qed

lemma solo_run_goroutines:
  assumes "length (gs c) = 1" "all_wf c"
  shows "run_goroutines sched c = finish_one 0 c"
  using assms
proof (induction sched arbitrary: c)
  case Nil
  then show ?case by (simp add: run_goroutines_def finish_def)
next
  case (Cons k ks)
  let ?c = "sched_step k c"
  have "run_goroutines (k # ks) c = run_goroutines ks ?c"
    by (simp add: run_goroutines_def)
  also have "\<dots> = finish_one 0 ?c"
    using Cons.prems by (intro Cons.IH all_wf_step) simp_all
  also have "\<dots> = finish_one 0 c"
  proof (cases "k = 0")
    case True
    have "wf_g (gs c ! 0)" using Cons.prems by (simp add: all_wf_def list_all_length)
    then show ?thesis using True Cons.prems(1) by (simp add: finish_one_unroll)
  next
    case False
    then show ?thesis using Cons.prems(1) by (simp add: sched_step_out)
  qed
  finally show ?case .
qed

lemma four_steps:
  assumes "k < length (gs c)" "g_pc (gs c ! k) = AtPre"
  defines "g \<equiv> gs c ! k"
  defines "it \<equiv> iteration (g_tasks g) (g_offset g) (g_l g) (g_i g) (shared c)"
  defines "c4 \<equiv> sched_step k (sched_step k (sched_step k (sched_step k c)))"
  shows "gs c4 ! k = loop_head (g\<lparr>g_results := (g_results g)[g_i g := fst it], g_i := Suc (g_i g),
            g_v := fst it, g_pc := AtPause\<rparr>)"
    and "shared c4 = snd it"
proof -
  let ?c1 = "sched_step k c"
  let ?c2 = "sched_step k ?c1"
  let ?c3 = "sched_step k ?c2"
  let ?m1 = "call_PreHook (int (g_i g) + g_offset g) (shared c)"
  let ?v = "fst (call_Task (g_tasks g ! g_i g) (g_i g) ?m1)"
  let ?m2 = "snd (call_Task (g_tasks g ! g_i g) (g_i g) ?m1)"
  let ?m3 = "call_PostHook (int (g_i g) + g_offset g) ?v ?m2"
  have 1: "gs ?c1 ! k = g\<lparr>g_pc := AtTask\<rparr>" "shared ?c1 = ?m1"
    using assms(1,2) by (simp_all add: sched_step_in g_step_pc g_def)
  have 2: "gs ?c2 ! k = g\<lparr>g_results := (g_results g)[g_i g := ?v], g_v := ?v, g_pc := AtPost\<rparr>"
    "shared ?c2 = ?m2"
    using assms(1) 1 by (simp_all add: sched_step_in [of k ?c1] g_step_pc)
  have 3: "gs ?c3 ! k = g\<lparr>g_results := (g_results g)[g_i g := ?v], g_v := ?v, g_pc := AtPause\<rparr>"
    "shared ?c3 = ?m3"
    using assms(1) 2 by (simp_all add: sched_step_in [of k ?c2] g_step_pc)
  have it: "it = (?v, sleep_between (int (g_i g) = int (g_l g) - 1) ?m3)"
    by (simp add: it_def iteration_def split: prod.splits)
  show "gs c4 ! k = loop_head (g\<lparr>g_results := (g_results g)[g_i g := fst it], g_i := Suc (g_i g),
            g_v := fst it, g_pc := AtPause\<rparr>)"
    using assms(1) 3 by (simp add: c4_def sched_step_in [of k ?c3] g_step_pc it loop_head_def)
  show "shared c4 = snd it"
    using assms(1) 3 by (simp add: c4_def sched_step_in [of k ?c3] g_step_pc it)
qed

lemma finish_one_four:
  assumes "k < length (gs c)" "wf_g (gs c ! k)"
  shows "finish_one k (sched_step k (sched_step k (sched_step k (sched_step k c)))) = finish_one k c"
proof -
  let ?c1 = "sched_step k c"
  let ?c2 = "sched_step k ?c1"
  let ?c3 = "sched_step k ?c2"
  have w1: "wf_g (gs ?c1 ! k)" using assms by (simp add: sched_step_same wf_g_step)
  then have w2: "wf_g (gs ?c2 ! k)" using assms(1) by (simp add: sched_step_same wf_g_step)
  then have w3: "wf_g (gs ?c3 ! k)" using assms(1) by (simp add: sched_step_same wf_g_step)
  have "finish_one k (sched_step k ?c3) = finish_one k ?c3"
    using assms(1) w3 by (intro finish_one_unroll) simp_all
  also have "\<dots> = finish_one k ?c2"
    using assms(1) w2 by (intro finish_one_unroll) simp_all
  also have "\<dots> = finish_one k ?c1"
    using assms(1) w1 by (intro finish_one_unroll) simp_all
  also have "\<dots> = finish_one k c"
    using assms by (intro finish_one_unroll)
  finally show ?thesis .
qed

lemma finish_one_run_loop:
  assumes "k < length (gs c)" "wf_g (gs c ! k)"
    "g_pc (gs c ! k) = (if g_i (gs c ! k) < length (g_tasks (gs c ! k)) then AtPre else AtSend)"
  shows "g_results (gs (finish_one k c) ! k)
      = fst (run_loop (g_tasks (gs c ! k)) (g_offset (gs c ! k)) (g_l (gs c ! k)) (g_i (gs c ! k))
               (g_results (gs c ! k)) (shared c))
    \<and> shared (finish_one k c)
      = snd (run_loop (g_tasks (gs c ! k)) (g_offset (gs c ! k)) (g_l (gs c ! k)) (g_i (gs c ! k))
               (g_results (gs c ! k)) (shared c))"
  using assms
proof (induction "length (g_tasks (gs c ! k)) - g_i (gs c ! k)" arbitrary: c)
  case 0
  let ?g = "gs c ! k"
  have ge: "\<not> g_i ?g < length (g_tasks ?g)" using 0(1) by simp
  then have pc: "g_pc ?g = AtSend" using 0(4) by simp
  have fo: "finish_one k c = sched_step k c"
    by (simp add: finish_one_def steps_left_def pc)
  have rl: "run_loop (g_tasks ?g) (g_offset ?g) (g_l ?g) (g_i ?g) (g_results ?g) (shared c)
      = (g_results ?g, shared c)"
    using ge by (subst run_loop_unfold) simp
  show ?case
    using 0(2) by (simp add: fo rl sched_step_in g_step_pc pc)
next
  case (Suc d)
  let ?g = "gs c ! k"
  let ?it = "iteration (g_tasks ?g) (g_offset ?g) (g_l ?g) (g_i ?g) (shared c)"
  let ?c4 = "sched_step k (sched_step k (sched_step k (sched_step k c)))"
  have lt: "g_i ?g < length (g_tasks ?g)" using Suc.hyps(2) by simp
  then have pc: "g_pc ?g = AtPre" using Suc.prems(3) by simp
  have g4: "gs ?c4 ! k = loop_head (?g\<lparr>g_results := (g_results ?g)[g_i ?g := fst ?it],
            g_i := Suc (g_i ?g), g_v := fst ?it, g_pc := AtPause\<rparr>)"
    and m4: "shared ?c4 = snd ?it"
    using four_steps [OF Suc.prems(1) pc] by simp_all
  have f: "g_tasks (gs ?c4 ! k) = g_tasks ?g" "g_offset (gs ?c4 ! k) = g_offset ?g"
    "g_l (gs ?c4 ! k) = g_l ?g" "g_i (gs ?c4 ! k) = Suc (g_i ?g)"
    "g_results (gs ?c4 ! k) = (g_results ?g)[g_i ?g := fst ?it]"
    "g_pc (gs ?c4 ! k) = (if Suc (g_i ?g) < length (g_tasks ?g) then AtPre else AtSend)"
    by (simp_all add: g4 loop_head_def)
  have wf4: "wf_g (gs ?c4 ! k)"
    using Suc.prems(2) by (simp add: wf_g_def f)
  have d: "d = length (g_tasks (gs ?c4 ! k)) - g_i (gs ?c4 ! k)"
    using Suc.hyps(2) by (simp add: f)
  have len4: "k < length (gs ?c4)" using Suc.prems(1) by simp
  have pc4: "g_pc (gs ?c4 ! k)
      = (if g_i (gs ?c4 ! k) < length (g_tasks (gs ?c4 ! k)) then AtPre else AtSend)"
    by (simp add: f)
  have rl: "run_loop (g_tasks ?g) (g_offset ?g) (g_l ?g) (g_i ?g) (g_results ?g) (shared c)
      = run_loop (g_tasks ?g) (g_offset ?g) (g_l ?g) (Suc (g_i ?g))
          ((g_results ?g)[g_i ?g := fst ?it]) (snd ?it)"
    by (subst run_loop_unfold) (simp add: lt split: prod.splits)
  have "finish_one k c = finish_one k ?c4"
    using finish_one_four [OF Suc.prems(1,2)] by simp
  then show ?case
    using Suc.hyps(1) [OF d len4 wf4 pc4] by (simp only: f m4 rl)
qed

lemma concat_map_single: "length xs = 1 \<Longrightarrow> concat (map f xs) = f (xs ! 0)"
  by (cases xs) simp_all

lemma zone_whole: "zone xs (int (length xs)) 1 (int (length xs) div 1) 0 = xs"
  by (simp add: zone_def cut_def)

lemma start_conc_one:
  "start_conc tasks 1 m = \<lparr>gs = [spawn 0 tasks 0], rawPartial = [], shared = m\<rparr>"
  using zone_whole [of tasks] by (simp add: start_conc_def)

lemma RunConc_body_one:
  assumes "Tasks (prog m) \<noteq> []"
  shows "RunConc_body 1 sched m
     = (None, fst (run (Tasks (prog m)) 0 m), snd (run (Tasks (prog m)) 0 m))"
proof -
  let ?ts = "Tasks (prog m)"
  let ?ini = "start_conc ?ts 1 m"
  have w: "safeRunnerQuantity 1 (int (length ?ts)) = 1"
    using assms by (cases ?ts) (simp_all add: safeRunnerQuantity_def)
  have g0: "gs ?ini ! 0 = spawn 0 ?ts 0" and len: "length (gs ?ini) = 1"
    and sh: "shared ?ini = m"
    by (simp_all add: start_conc_one)
  have wf: "all_wf ?ini" by (rule start_conc_props(2))
  have solo: "run_goroutines sched ?ini = finish_one 0 ?ini"
    using len wf by (rule solo_run_goroutines)
  have sp: "g_tasks (spawn 0 ?ts 0) = ?ts" "g_offset (spawn 0 ?ts 0) = 0"
    "g_l (spawn 0 ?ts 0) = length ?ts" "g_i (spawn 0 ?ts 0) = 0"
    "g_results (spawn 0 ?ts 0) = replicate (length ?ts) None"
    "g_pc (spawn 0 ?ts 0) = (if 0 < length ?ts then AtPre else AtSend)"
    by (simp_all add: spawn_def loop_head_def)
  have "g_results (gs (finish_one 0 ?ini) ! 0)
          = fst (run_loop ?ts 0 (length ?ts) 0 (replicate (length ?ts) None) m)
      \<and> shared (finish_one 0 ?ini)
          = snd (run_loop ?ts 0 (length ?ts) 0 (replicate (length ?ts) None) m)"
    using finish_one_run_loop [of 0 ?ini] len wf_spawn [of 0 ?ts 0]
    by (simp add: g0 sp sh)
  then have r: "g_results (gs (finish_one 0 ?ini) ! 0) = fst (run ?ts 0 m)"
    "shared (finish_one 0 ?ini) = snd (run ?ts 0 m)"
    by (simp_all add: run_def Let_def)
  have "concat (map g_results (gs (finish_one 0 ?ini))) = g_results (gs (finish_one 0 ?ini) ! 0)"
    using len by (intro concat_map_single) simp
  then show ?thesis
    using RunConc_body_eq [of 1 m sched] by (simp add: w solo r)
qed

text \<open>
  C10. For a non-empty task list, \<open>RunConc(1)\<close> makes one zone, the whole list, and
  starts one goroutine, which runs the core loop over it with offset 0; under every
  schedule it returns the result of \<open>Run\<close> and leaves the memory that \<open>Run\<close> leaves: the
  same world and the same trace, that is the same hook, task and pause calls with the
  same arguments in the same order.
\<close>

theorem RunConc_one_is_Run:
  "Tasks (prog m) \<noteq> [] \<longrightarrow>
     shards 1 (int (length (Tasks (prog m)))) = Some [(0, int (length (Tasks (prog m))))]
     \<and> dispatch (Tasks (prog m)) (int (length (Tasks (prog m)))) 1
          (int (length (Tasks (prog m)))) 0 [] = Inr [spawn 0 (Tasks (prog m)) 0]
     \<and> RunConc 1 sched m = (Inr (fst (Run m)), snd (Run m))"
proof (intro impI conjI)
  assume ne: "Tasks (prog m) \<noteq> []"
  let ?ts = "Tasks (prog m)"
  let ?L = "int (length ?ts)"
  have L: "1 \<le> ?L" using ne by (cases ?ts) simp_all
  have w: "safeRunnerQuantity 1 ?L = 1" using ne by (simp add: safeRunnerQuantity_def)
  have dv: "go_div ?L 1 = Inr ?L" by (simp add: go_div_pos)
  show "shards 1 ?L = Some [(0, ?L)]"
    by (simp add: shards_def w dv shard_bounds_def)
  show "dispatch ?ts ?L 1 ?L 0 [] = Inr [spawn 0 ?ts 0]"
    using dispatch_eq [of 0 1 ?L ?L ?ts "[]"] zone_whole [of ?ts] by simp
  have "Tasks (prog (call_OnStart m)) \<noteq> []" using ne by simp
  then have "RunConc_body 1 sched (call_OnStart m)
     = (None, fst (run ?ts 0 (call_OnStart m)), snd (run ?ts 0 (call_OnStart m)))"
    using RunConc_body_one [of "call_OnStart m" sched] by simp
  then show "RunConc 1 sched m = (Inr (fst (Run m)), snd (Run m))"
    by (simp add: RunConc_eq Run_eq)
qed

theorem RunConc_one_is_Run_witness:
  "Tasks (prog (start_mem example 0)) \<noteq> []
   \<and> RunConc 1 [0, 0, 5, 0] (start_mem example 0)
       = (Inr (fst (Run (start_mem example 0))), snd (Run (start_mem example 0)))"
proof -
  have "Tasks (prog (start_mem example 0)) \<noteq> []"
    by (simp add: start_mem_def example_def tasks5_def)
  then show ?thesis
    using RunConc_one_is_Run [of "start_mem example 0" "[0, 0, 5, 0]"] by blast
qed

lemma concMode_isConc: "isConc (prog (concMode activate m)) = activate"
  by (simp add: concMode_def)

text \<open>
  C9. Neither \<open>Run\<close> nor \<open>RunConc\<close> changes the Program: after the run, under every
  schedule and also when \<open>RunConc\<close> panics, all its fields (the tasks, the interval, the
  four hooks and \<open>isConc\<close>) are what they were before. No step of either calls
  \<open>concMode\<close>.
\<close>

theorem Program_unchanged:
  "prog (snd (Run m)) = prog m \<and> prog (snd (RunConc n sched m)) = prog m"
proof
  show "prog (snd (Run m)) = prog m"
    by (simp add: Run_eq run_prog)
  show "prog (snd (RunConc n sched m)) = prog m"
  proof (cases "1 \<le> safeRunnerQuantity n (int (length (Tasks (prog m))))")
    case True
    then show ?thesis
      by (simp add: RunConc_ok run_goroutines_prog start_conc_props(4))
  next
    case False
    then show ?thesis
      by (simp add: RunConc_panic)
  qed
qed

lemma Run_no_tasks: "Tasks (prog m) = [] \<Longrightarrow> fst (Run m) = []"
proof -
  assume "Tasks (prog m) = []"
  then have "length (fst (Run m)) = 0" by (simp add: Run_eq run_length)
  then show ?thesis by simp
qed

lemma RunConc_returns:
  assumes "1 \<le> safeRunnerQuantity n (int (length (Tasks (prog m))))"
  shows "\<exists>r. fst (RunConc n sched m) = Inr r \<and> length r = length (Tasks (prog m))"
  using run_goroutines_results_length [OF assms, of sched "Tasks (prog m)" "call_OnStart m"]
  by (simp add: RunConc_ok [OF assms])

lemma RunConc_no_tasks:
  assumes "Tasks (prog m) = []"
  shows "fst (RunConc n sched m) = (if 1 \<le> n then Inl DivideByZero else Inr [])"
proof (cases "1 \<le> n")
  case True
  then have "\<not> 1 \<le> safeRunnerQuantity n (int (length (Tasks (prog m))))"
    using assms by (simp add: safeRunnerQuantity_def)
  then show ?thesis
    using True by (simp add: RunConc_panic)
next
  case False
  then have "1 \<le> safeRunnerQuantity n (int (length (Tasks (prog m))))"
    using assms by (simp add: safeRunnerQuantity_def)
  then obtain r where "fst (RunConc n sched m) = Inr r" "length r = length (Tasks (prog m))"
    using RunConc_returns by blast
  then show ?thesis using False assms by simp
qed

text \<open>
  C2. The specification has \<open>RunConc\<close> return an empty result on an empty task list,
  for every \<open>n\<close>, and \<open>safeRunnerQuantity\<close> is documented never to go below 1. For
  every \<open>n \<ge> 1\<close> (written \<open>1 + k\<close>) the normalisation yields 0 runners, the computation
  of the span divides by zero and \<open>RunConc\<close> panics.
\<close>

theorem RunConc_no_tasks_panics:
  "fst (RunConc (1 + int k) sched (m\<lparr>prog := (prog m)\<lparr>Tasks := []\<rparr>\<rparr>)) = Inl DivideByZero
   \<and> safeRunnerQuantity (1 + int k) 0 = 0
   \<and> go_div 0 (safeRunnerQuantity (1 + int k) 0) = Inl DivideByZero"
  using RunConc_no_tasks [of "m\<lparr>prog := (prog m)\<lparr>Tasks := []\<rparr>\<rparr>" "1 + int k" sched]
  by (simp add: safeRunnerQuantity_def go_div_def)

text \<open>
  C3. The specification has \<open>RunConc\<close> and \<open>Run\<close> return equal results for pure tasks
  and \<open>n \<ge> 1\<close>. For the empty task list (whose tasks are all pure) and every
  \<open>n \<ge> 1\<close>, \<open>Run\<close> returns the empty sequence and \<open>RunConc\<close> does not return it.
\<close>

theorem RunConc_differs_from_Run_no_tasks:
  "list_all2 returns (Tasks (prog (m\<lparr>prog := (prog m)\<lparr>Tasks := []\<rparr>\<rparr>))) []
   \<and> fst (Run (m\<lparr>prog := (prog m)\<lparr>Tasks := []\<rparr>\<rparr>)) = []
   \<and> fst (RunConc (1 + int k) sched (m\<lparr>prog := (prog m)\<lparr>Tasks := []\<rparr>\<rparr>))
       \<noteq> Inr (fst (Run (m\<lparr>prog := (prog m)\<lparr>Tasks := []\<rparr>\<rparr>)))"
  using RunConc_no_tasks [of "m\<lparr>prog := (prog m)\<lparr>Tasks := []\<rparr>\<rparr>" "1 + int k" sched]
    Run_no_tasks [of "m\<lparr>prog := (prog m)\<lparr>Tasks := []\<rparr>\<rparr>"]
  by simp

lemma RunConc_pure_eq_Run:
  assumes "list_all2 returns (Tasks (prog m)) vs"
    "1 \<le> safeRunnerQuantity n (int (length (Tasks (prog m))))"
    "keeps_results (prog m)"
  shows "fst (RunConc n sched m) = Inr (fst (Run m))"
  using RunConc_pure [OF assms] assms(1,3)
  by (simp add: Run_eq run_pure call_OnFinish_keeps run_prog)

lemma conc_hook_args_4_2: "conc_hook_args (take 4 tasks5) 2 = {#0, 1, 1, 2#}"
  by (simp add: conc_hook_args_def zone_def cut_def tasks5_def upt_rec numeral_eq_Suc)

text \<open>
  C1. The specification has every runner run the core loop with the start of its zone
  as offset, so that the hooks receive the global index of each task (the Program's
  documentation: the current task index). The code passes the runner id as offset: for four
  tasks and two runners (zones \<open>[0:2]\<close> and \<open>[2:4]\<close>) the pre-task and the post-task hook
  are called, under every schedule, with the indices 0, 1, 1, 2 and never with 3, while
  the sequential run calls them with 0, 1, 2, 3.
\<close>

theorem RunConc_hook_index_is_not_global:
  "mset (pre_args (trace (snd (RunConc 2 sched (start_mem (example\<lparr>Tasks := take 4 tasks5\<rparr>) 0)))))
     = {#0, 1, 1, 2#}
   \<and> mset (post_args (trace (snd (RunConc 2 sched (start_mem (example\<lparr>Tasks := take 4 tasks5\<rparr>) 0)))))
     = {#0, 1, 1, 2#}
   \<and> pre_args (trace (snd (Run (start_mem (example\<lparr>Tasks := take 4 tasks5\<rparr>) 0))))
     = [0, 1, 2, 3]
   \<and> shards 2 4 = Some [(0, 2), (2, 4)]"
proof -
  let ?m = "start_mem (example\<lparr>Tasks := take 4 tasks5\<rparr>) 0"
  have hs: "OnStart (prog ?m) = Some (\<lambda>s. Suc s)" "PreHook (prog ?m) = Some (\<lambda>i s. Suc s)"
    "PostHook (prog ?m) = Some (\<lambda>i v s. Suc s)" "OnFinish (prog ?m) = Some (\<lambda>v s. (v, Suc s))"
    by (simp_all add: start_mem_def example_def)
  have ts: "Tasks (prog ?m) = take 4 tasks5" and t: "trace ?m = []"
    by (simp_all add: start_mem_def)
  have L: "length (take 4 tasks5) = 4" by (simp add: tasks5_def)
  have w: "safeRunnerQuantity 2 (int (length (Tasks (prog ?m)))) = 2"
    by (simp only: ts L) (simp add: safeRunnerQuantity_def)
  then have w1: "1 \<le> safeRunnerQuantity 2 (int (length (Tasks (prog ?m))))" by simp
  have w': "safeRunnerQuantity 2 (int (length (take 4 tasks5))) = 2"
    using w by (simp only: ts)
  obtain mid r where c:
      "trace (snd (RunConc 2 sched ?m)) = trace ?m @ [EvOnStart] @ mid @ [EvOnFinish r]"
      "mset (pre_args mid) = conc_hook_args (take 4 tasks5) 2"
      "mset (post_args mid) = conc_hook_args (take 4 tasks5) 2"
    using RunConc_trace_args [OF hs w1, where sched = sched] unfolding ts w' by blast
  obtain mid' r' where s:
      "trace (snd (Run ?m)) = trace ?m @ [EvOnStart] @ mid' @ [EvOnFinish r']"
      "pre_args mid' = map int [0..<length (Tasks (prog ?m))]"
    using Run_trace_hooks [OF hs] by blast
  have "pre_args (trace (snd (RunConc 2 sched ?m))) = pre_args mid"
    by (simp add: c(1) t pre_args_def)
  then have 1: "mset (pre_args (trace (snd (RunConc 2 sched ?m)))) = {#0, 1, 1, 2#}"
    by (simp only: c(2) conc_hook_args_4_2)
  have "post_args (trace (snd (RunConc 2 sched ?m))) = post_args mid"
    by (simp add: c(1) t post_args_def)
  then have 2: "mset (post_args (trace (snd (RunConc 2 sched ?m)))) = {#0, 1, 1, 2#}"
    by (simp only: c(3) conc_hook_args_4_2)
  have "pre_args (trace (snd (Run ?m))) = pre_args mid'"
    by (simp add: s(1) t pre_args_def)
  also have "\<dots> = map int [0..<4]"
    by (simp only: s(2) ts L)
  also have "\<dots> = [0, 1, 2, 3]"
    by (simp add: upt_rec)
  finally have 3: "pre_args (trace (snd (Run ?m))) = [0, 1, 2, 3]" .
  have 4: "shards 2 4 = Some [(0, 2), (2, 4)]"
    by (simp add: shards_def safeRunnerQuantity_def go_div_def shard_bounds_def upt_rec
        numeral_eq_Suc)
  show ?thesis using 1 2 3 4 by blast
qed

lemma safeRunnerQuantity_pos:
  "tasks \<noteq> [] \<or> n < 1 \<Longrightarrow> 1 \<le> safeRunnerQuantity n (int (length tasks))"
  by (cases tasks) (auto simp: safeRunnerQuantity_def)

section \<open>The hook calls of a run\<close>

lemma explains_append:
  "explains p (xs @ ys) w w'' = (\<exists>w'. explains p xs w w' \<and> explains p ys w' w'')"
proof (induction xs arbitrary: w)
  case Nil
  then show ?case by simp
next
  case (Cons e xs)
  show ?case by (simp add: Cons.IH list_ex_iff) blast
qed

lemma explained_refl: "explained m m"
  unfolding explained_def by (simp add: exI [of _ "[]"])

lemma explained_trans:
  assumes "explained m0 m1" "explained m1 m2"
  shows "explained m0 m2"
proof -
  from assms(1) obtain es where 1: "prog m1 = prog m0" "trace m1 = trace m0 @ es"
    "explains (prog m0) es (world m0) (world m1)"
    unfolding explained_def by blast
  from assms(2) obtain fs where 2: "prog m2 = prog m1" "trace m2 = trace m1 @ fs"
    "explains (prog m1) fs (world m1) (world m2)"
    unfolding explained_def by blast
  have "explains (prog m0) (es @ fs) (world m0) (world m2)"
    using 1 2 by (auto simp: explains_append)
  moreover have "trace m2 = trace m0 @ (es @ fs)" using 1 2 by simp
  ultimately show ?thesis unfolding explained_def using 1(1) 2(1) by metis
qed

lemma explained_one:
  assumes "prog m' = prog m" "trace m' = trace m @ [e]"
    "world m' \<in> set (event_worlds (prog m) e (world m))"
  shows "explained m m'"
  unfolding explained_def using assms
  by (intro conjI exI [of _ "[e]"]) (simp_all add: list_ex_iff)

lemma explained_call_OnStart: "explained m (call_OnStart m)"
proof (cases "OnStart (prog m)")
  case None
  then show ?thesis by (simp add: call_OnStart_def explained_refl)
next
  case (Some h)
  then show ?thesis
    by (intro explained_one [where e = EvOnStart])
      (simp_all add: call_OnStart_def event_worlds_def)
qed

lemma explained_call_PreHook: "explained m (call_PreHook k m)"
proof (cases "PreHook (prog m)")
  case None
  then show ?thesis by (simp add: call_PreHook_def explained_refl)
next
  case (Some h)
  then show ?thesis
    by (intro explained_one [where e = "EvPreHook k"])
      (simp_all add: call_PreHook_def event_worlds_def)
qed

lemma explained_call_PostHook: "explained m (call_PostHook k v m)"
proof (cases "PostHook (prog m)")
  case None
  then show ?thesis by (simp add: call_PostHook_def explained_refl)
next
  case (Some h)
  then show ?thesis
    by (intro explained_one [where e = "EvPostHook k v"])
      (simp_all add: call_PostHook_def event_worlds_def)
qed

lemma explained_call_OnFinish: "explained m (snd (call_OnFinish r m))"
proof (cases "OnFinish (prog m)")
  case None
  then show ?thesis by (simp add: call_OnFinish_def explained_refl)
next
  case (Some h)
  then show ?thesis
    by (intro explained_one [where e = "EvOnFinish r"])
      (simp_all add: call_OnFinish_def event_worlds_def split: prod.splits)
qed

lemma explained_sleep_between: "explained m (sleep_between b m)"
proof (cases "Interval (prog m) > 0 \<and> \<not> b")
  case False
  then have "sleep_between b m = m" by (auto simp: sleep_between_def)
  then show ?thesis by (simp add: explained_refl)
next
  case True
  then show ?thesis
    by (intro explained_one [where e = "EvSleep (Interval (prog m))"])
      (simp_all add: sleep_between_def event_worlds_def)
qed

lemma explained_call_Task:
  assumes "f \<in> set (Tasks (prog m))"
  shows "explained m (snd (call_Task f i m))"
proof (rule explained_one [where e = "EvTask i (fst (f (world m)))"])
  show "prog (snd (call_Task f i m)) = prog m" by simp
  show "trace (snd (call_Task f i m)) = trace m @ [EvTask i (fst (f (world m)))]"
    by (simp add: call_Task_def split: prod.splits)
  have "world (snd (call_Task f i m)) = snd (f (world m))"
    by (simp add: call_Task_def split: prod.splits)
  then show "world (snd (call_Task f i m))
      \<in> set (event_worlds (prog m) (EvTask i (fst (f (world m)))) (world m))"
    using assms by (simp add: event_worlds_def)
qed


lemma explained_iteration:
  assumes "tasks ! i \<in> set (Tasks (prog m))"
  shows "explained m (snd (iteration tasks offset l i m))"
proof -
  let ?m1 = "call_PreHook (int i + offset) m"
  let ?t = "call_Task (tasks ! i) i ?m1"
  let ?m3 = "call_PostHook (int i + offset) (fst ?t) (snd ?t)"
  have it: "snd (iteration tasks offset l i m) = sleep_between (int i = int l - 1) ?m3"
    by (simp add: iteration_def split: prod.splits)
  have 1: "explained m ?m1" by (rule explained_call_PreHook)
  have "tasks ! i \<in> set (Tasks (prog ?m1))" using assms by simp
  then have 2: "explained ?m1 (snd ?t)" by (rule explained_call_Task)
  have 3: "explained (snd ?t) ?m3" by (rule explained_call_PostHook)
  have 4: "explained ?m3 (sleep_between (int i = int l - 1) ?m3)"
    by (rule explained_sleep_between)
  show ?thesis
    unfolding it using 1 2 3 4 by (blast intro: explained_trans)
qed

lemma explained_prog: "explained m0 m \<Longrightarrow> prog m = prog m0"
  by (simp add: explained_def)

lemma explained_run_loop:
  assumes "set tasks \<subseteq> set (Tasks (prog m))"
  shows "explained m (snd (run_loop tasks offset l i results m))"
  using assms
proof (induction "length tasks - i" arbitrary: i results m)
  case 0
  then show ?case by (subst run_loop_unfold) (simp add: explained_refl)
next
  case (Suc d)
  then have i: "i < length tasks" by simp
  obtain v m' where it: "iteration tasks offset l i m = (v, m')"
    by (cases "iteration tasks offset l i m")
  have "tasks ! i \<in> set (Tasks (prog m))" using i Suc.prems by auto
  then have 1: "explained m m'"
    using explained_iteration [of tasks i m offset l] it by simp
  then have "set tasks \<subseteq> set (Tasks (prog m'))"
    using Suc.prems by (simp add: explained_prog)
  moreover have "d = length tasks - Suc i" using Suc.hyps(2) by simp
  ultimately have 2: "explained m' (snd (run_loop tasks offset l (Suc i) (results[i := v]) m'))"
    by (rule Suc.hyps(1) [rotated])
  have "run_loop tasks offset l i results m
      = run_loop tasks offset l (Suc i) (results[i := v]) m'"
    by (subst run_loop_unfold) (simp add: i it)
  then show ?case using 1 2 by (simp add: explained_trans)
qed

lemma explained_run:
  "set tasks \<subseteq> set (Tasks (prog m)) \<Longrightarrow> explained m (snd (run tasks offset m))"
  by (simp add: run_def Let_def explained_run_loop)

lemma explained_Run: "explained m (snd (Run m))"
proof -
  let ?m1 = "call_OnStart m"
  let ?r = "run (Tasks (prog m)) 0 ?m1"
  have 1: "explained m ?m1" by (rule explained_call_OnStart)
  have 2: "explained ?m1 (snd ?r)" by (intro explained_run) simp
  have 3: "explained (snd ?r) (snd (call_OnFinish (fst ?r) (snd ?r)))"
    by (rule explained_call_OnFinish)
  show ?thesis
    unfolding Run_eq using 1 2 3 by (blast intro: explained_trans)
qed

lemma explained_g_step:
  assumes "wf_g g" "set (g_tasks g) \<subseteq> set (Tasks (prog m))"
  shows "explained m (fst (snd (g_step g m)))"
proof (cases "g_pc g")
  case AtPre
  then show ?thesis by (simp add: g_step_pc explained_call_PreHook)
next
  case AtTask
  then have "g_i g < length (g_tasks g)" using assms(1) by (simp add: wf_g_def)
  then have "g_tasks g ! g_i g \<in> set (Tasks (prog m))" using assms(2) by auto
  then show ?thesis using AtTask by (simp add: g_step_pc explained_call_Task)
next
  case AtPost
  then show ?thesis by (simp add: g_step_pc explained_call_PostHook)
next
  case AtPause
  then show ?thesis by (simp add: g_step_pc explained_sleep_between)
next
  case AtSend
  then show ?thesis by (simp add: g_step_pc explained_refl)
next
  case Exited
  then show ?thesis by (simp add: g_step_pc explained_refl)
qed

lemma expl_inv_step:
  assumes "expl_inv m0 c"
  shows "expl_inv m0 (sched_step k c)"
proof (cases "k < length (gs c)")
  case False
  with assms show ?thesis by (simp add: sched_step_out)
next
  case k: True
  let ?g = "gs c ! k"
  let ?g' = "fst (g_step ?g (shared c))"
  have e: "explained m0 (shared c)" and wf: "all_wf c"
    and ts: "list_all (\<lambda>g. set (g_tasks g) \<subseteq> set (Tasks (prog m0))) (gs c)"
    using assms by (simp_all add: expl_inv_def)
  have wfg: "wf_g ?g" using wf k by (simp add: all_wf_def list_all_length)
  have tg: "set (g_tasks ?g) \<subseteq> set (Tasks (prog m0))"
    using ts k by (simp add: list_all_length)
  then have "set (g_tasks ?g) \<subseteq> set (Tasks (prog (shared c)))"
    using e by (simp add: explained_prog)
  with wfg have "explained (shared c) (fst (snd (g_step ?g (shared c))))"
    by (rule explained_g_step)
  with e have 1: "explained m0 (shared (sched_step k c))"
    using k by (simp add: sched_step_in) (rule explained_trans)
  have 2: "all_wf (sched_step k c)" using wf by (rule all_wf_step)
  have "set (g_tasks ?g') \<subseteq> set (Tasks (prog m0))"
    using tg by (simp add: g_step_tasks)
  then have 3: "list_all (\<lambda>g. set (g_tasks g) \<subseteq> set (Tasks (prog m0))) (gs (sched_step k c))"
    using ts k by (auto simp: sched_step_in list_all_length nth_list_update)
  show ?thesis unfolding expl_inv_def using 1 2 3 by blast
qed

lemma g_tasks_spawn: "g_tasks (spawn rid tasks offset) = tasks"
  by (simp add: spawn_def loop_head_def)

lemma run_goroutines_explained:
  "explained m (shared (run_goroutines sched (start_conc (Tasks (prog m)) runners m)))"
proof -
  let ?ini = "start_conc (Tasks (prog m)) runners m"
  have "list_all (\<lambda>g. set (g_tasks g) \<subseteq> set (Tasks (prog m))) (gs ?ini)"
    by (simp add: start_conc_def list_all_iff g_tasks_spawn set_zone)
  then have "expl_inv m ?ini"
    unfolding expl_inv_def
    using start_conc_props(2) [of "Tasks (prog m)" runners m]
    by (simp add: start_conc_props(4) explained_refl)
  with expl_inv_step have "expl_inv m (run_goroutines sched ?ini)"
    by (rule run_goroutines_pres)
  then show ?thesis by (simp add: expl_inv_def)
qed

lemma explained_RunConc: "explained m (snd (RunConc n sched m))"
proof (cases "1 \<le> safeRunnerQuantity n (int (length (Tasks (prog m))))")
  case True
  let ?m1 = "call_OnStart m"
  let ?c = "run_goroutines sched (start_conc (Tasks (prog m))
      (safeRunnerQuantity n (int (length (Tasks (prog m))))) ?m1)"
  have 1: "explained m ?m1" by (rule explained_call_OnStart)
  have 2: "explained ?m1 (shared ?c)"
    using run_goroutines_explained [of ?m1 sched] by simp
  have 3: "explained (shared ?c)
      (snd (call_OnFinish (concat (map g_results (gs ?c))) (shared ?c)))"
    by (rule explained_call_OnFinish)
  show ?thesis
    unfolding RunConc_ok [OF True] using 1 2 3 by (auto intro: explained_trans)
next
  case False
  have 1: "explained m (call_OnStart m)" by (rule explained_call_OnStart)
  have 3: "explained (call_OnStart m) (snd (call_OnFinish [] (call_OnStart m)))"
    by (rule explained_call_OnFinish)
  show ?thesis
    unfolding RunConc_panic [OF False] using 1 3 by (auto intro: explained_trans)
qed

lemma call_OnFinish_Some:
  assumes "OnFinish (prog m) = Some d"
  shows "fst (call_OnFinish r m) = keep_length r (fst (d r (world m)))"
    "world (snd (call_OnFinish r m)) = snd (d r (world m))"
  using assms by (simp_all add: call_OnFinish_def split: prod.splits)

lemma explained_events:
  assumes "explained m m2" "trace m2 = trace m @ es"
  shows "explains (prog m) es (world m) (world m2)"
  using assms unfolding explained_def by auto

lemma Run_all_hooks:
  assumes "OnStart (prog m) = Some a" "PreHook (prog m) = Some b"
    "PostHook (prog m) = Some c" "OnFinish (prog m) = Some d"
  shows "\<exists>mid r w1. trace (snd (Run m)) = trace m @ [EvOnStart] @ mid @ [EvOnFinish r]
      \<and> filter is_start_finish mid = []
      \<and> length (pre_args mid) = length (Tasks (prog m))
      \<and> length (post_args mid) = length (Tasks (prog m))
      \<and> length r = length (Tasks (prog m))
      \<and> explains (prog m) ([EvOnStart] @ mid) (world m) w1
      \<and> world (snd (Run m)) = snd (d r w1)
      \<and> fst (Run m) = keep_length r (fst (d r w1))"
proof -
  let ?m1 = "call_OnStart m"
  let ?run = "run (Tasks (prog m)) 0 ?m1"
  obtain mid where mid:
    "trace (snd (Run m)) = trace m @ [EvOnStart] @ mid @ [EvOnFinish (fst ?run)]"
    "trace (snd ?run) = trace m @ [EvOnStart] @ mid"
    "filter is_start_finish mid = []"
    "pre_args mid = map int [0..<length (Tasks (prog m))]"
    "post_args mid = map int [0..<length (Tasks (prog m))]"
    using Run_trace_hooks [OF assms] by blast
  have "explained m ?m1" by (rule explained_call_OnStart)
  moreover have "explained ?m1 (snd ?run)" by (intro explained_run) simp
  ultimately have "explained m (snd ?run)" by (rule explained_trans)
  then have e: "explains (prog m) ([EvOnStart] @ mid) (world m) (world (snd ?run))"
    using mid(2) by (rule explained_events)
  have f: "OnFinish (prog (snd ?run)) = Some d" using assms(4) by (simp add: run_prog)
  have 1: "world (snd (Run m)) = snd (d (fst ?run) (world (snd ?run)))"
    and 2: "fst (Run m) = keep_length (fst ?run) (fst (d (fst ?run) (world (snd ?run))))"
    unfolding Run_eq using call_OnFinish_Some [OF f] by simp_all
  have 3: "length (pre_args mid) = length (Tasks (prog m))"
    "length (post_args mid) = length (Tasks (prog m))"
    by (simp_all add: mid(4,5))
  have 4: "length (fst ?run) = length (Tasks (prog m))" by (rule run_length)
  show ?thesis using mid(1,3) 3 4 e 1 2 by blast
qed

lemma RunConc_all_hooks:
  assumes "OnStart (prog m) = Some a" "PreHook (prog m) = Some b"
    "PostHook (prog m) = Some c" "OnFinish (prog m) = Some d"
    "1 \<le> safeRunnerQuantity n (int (length (Tasks (prog m))))"
  shows "\<exists>mid r w1. trace (snd (RunConc n sched m)) = trace m @ [EvOnStart] @ mid @ [EvOnFinish r]
      \<and> filter is_start_finish mid = []
      \<and> length (pre_args mid) = length (Tasks (prog m))
      \<and> length (post_args mid) = length (Tasks (prog m))
      \<and> length r = length (Tasks (prog m))
      \<and> explains (prog m) ([EvOnStart] @ mid) (world m) w1
      \<and> world (snd (RunConc n sched m)) = snd (d r w1)
      \<and> fst (RunConc n sched m) = Inr (keep_length r (fst (d r w1)))"
proof -
  let ?L = "length (Tasks (prog m))"
  let ?w = "safeRunnerQuantity n (int ?L)"
  let ?m1 = "call_OnStart m"
  let ?m2 = "shared (run_goroutines sched (start_conc (Tasks (prog m)) ?w ?m1))"
  obtain mid r where c:
    "trace (snd (RunConc n sched m)) = trace m @ [EvOnStart] @ mid @ [EvOnFinish r]"
    "filter is_start_finish mid = []"
    "mset (pre_args mid) = conc_hook_args (Tasks (prog m)) ?w"
    "mset (post_args mid) = conc_hook_args (Tasks (prog m)) ?w"
    "length r = ?L"
    "trace ?m2 = trace m @ [EvOnStart] @ mid"
    "RunConc n sched m = (Inr (fst (call_OnFinish r ?m2)), snd (call_OnFinish r ?m2))"
    using RunConc_trace_args [OF assms, where sched = sched] by blast
  have "size (mset (pre_args mid)) = ?L"
    using assms(5) by (simp only: c(3) size_conc_hook_args)
  then have 3: "length (pre_args mid) = ?L" by simp
  have "size (mset (post_args mid)) = ?L"
    using assms(5) by (simp only: c(4) size_conc_hook_args)
  then have 4: "length (post_args mid) = ?L" by simp
  have "explained m ?m1" by (rule explained_call_OnStart)
  moreover have "explained ?m1 ?m2"
    using run_goroutines_explained [of ?m1 sched ?w] by simp
  ultimately have "explained m ?m2" by (rule explained_trans)
  then have e: "explains (prog m) ([EvOnStart] @ mid) (world m) (world ?m2)"
    using c(6) by (rule explained_events)
  have f: "OnFinish (prog ?m2) = Some d"
    using assms(4) by (simp add: run_goroutines_prog start_conc_props(4))
  have 1: "world (snd (RunConc n sched m)) = snd (d r (world ?m2))"
    and 2: "fst (RunConc n sched m) = Inr (keep_length r (fst (d r (world ?m2))))"
    unfolding c(7) using call_OnFinish_Some [OF f] by simp_all
  show ?thesis using c(1,2,5) 3 4 e 1 2 by blast
qed

text \<open>
  C7. The specification has the on-finish hook receive, in either mode, the result
  sequence that is about to be returned. For the program \<open>example\<close> with its four hooks
  and no task, and every \<open>n \<ge> 1\<close> (written \<open>1 + k\<close>), under every schedule:
  \<open>RunConc\<close> calls the on-start hook, panics on the division by zero of C2 and returns
  no sequence, and the deferred function still calls the on-finish hook once, with the
  nil slice. The two hooks have been called (each adds one to the world, which is 2 at
  the end), no pre-task or post-task hook has. \<open>Run\<close>, on the same program, makes the
  same calls and returns the empty sequence that its on-finish hook has received.
\<close>

theorem on_finish_on_panic_path:
  "fst (RunConc (1 + int k) sched (start_mem (example\<lparr>Tasks := []\<rparr>) 0)) = Inl DivideByZero
   \<and> trace (snd (RunConc (1 + int k) sched (start_mem (example\<lparr>Tasks := []\<rparr>) 0)))
       = [EvOnStart, EvOnFinish []]
   \<and> world (snd (RunConc (1 + int k) sched (start_mem (example\<lparr>Tasks := []\<rparr>) 0))) = 2
   \<and> Run (start_mem (example\<lparr>Tasks := []\<rparr>) 0)
       = ([], \<lparr>prog = example\<lparr>Tasks := []\<rparr>, world = 2, trace = [EvOnStart, EvOnFinish []]\<rparr>)"
proof -
  let ?m = "start_mem (example\<lparr>Tasks := []\<rparr>) 0"
  have w: "\<not> 1 \<le> safeRunnerQuantity (1 + int k) (int (length (Tasks (prog ?m))))"
    by (simp add: start_mem_def safeRunnerQuantity_def)
  have p: "RunConc (1 + int k) sched ?m
      = (Inl DivideByZero, snd (call_OnFinish [] (call_OnStart ?m)))"
    using w by (rule RunConc_panic)
  have f: "snd (call_OnFinish [] (call_OnStart ?m))
      = \<lparr>prog = example\<lparr>Tasks := []\<rparr>, world = 2, trace = [EvOnStart, EvOnFinish []]\<rparr>"
    by (simp add: call_OnFinish_def call_OnStart_def start_mem_def example_def log_event_def)
  have r: "Run ?m = ([], \<lparr>prog = example\<lparr>Tasks := []\<rparr>, world = 2,
      trace = [EvOnStart, EvOnFinish []]\<rparr>)"
    by (simp add: Run_eq run_Nil start_mem_def call_OnFinish_def call_OnStart_def example_def
        log_event_def keep_length_def)
  show ?thesis unfolding p using f r by simp
qed

text \<open>
  Where \<open>RunConc\<close> does not panic (the task list is not empty, or \<open>n < 1\<close>), and for
  \<open>Run\<close> always: with all four hooks configured, the trace of a run over \<open>L\<close> tasks is,
  under every schedule of the goroutines, the on-start call, then a sequence of events
  with no on-start or on-finish call and with exactly \<open>L\<close> pre-task and exactly \<open>L\<close>
  post-task hook calls, then the on-finish call, on a sequence \<open>r\<close> of \<open>L\<close> results. The
  events before the on-finish call explain the passage from the caller's world to a
  world \<open>w1\<close>: the recorded calls are the calls made. The on-finish hook \<open>d\<close> is applied
  to \<open>r\<close> in \<open>w1\<close>; the world it leaves is the world after the run, and what it leaves
  in the slice is what the run returns.
\<close>

theorem hooks_complete:
  "OnStart (prog m) = Some a \<and> PreHook (prog m) = Some b
     \<and> PostHook (prog m) = Some c \<and> OnFinish (prog m) = Some d \<longrightarrow>
   (\<exists>mid r w1. trace (snd (Run m)) = trace m @ [EvOnStart] @ mid @ [EvOnFinish r]
      \<and> filter is_start_finish mid = []
      \<and> length (pre_args mid) = length (Tasks (prog m))
      \<and> length (post_args mid) = length (Tasks (prog m))
      \<and> length r = length (Tasks (prog m))
      \<and> explains (prog m) ([EvOnStart] @ mid) (world m) w1
      \<and> world (snd (Run m)) = snd (d r w1)
      \<and> fst (Run m) = keep_length r (fst (d r w1)))
   \<and> (Tasks (prog m) \<noteq> [] \<or> n < 1 \<longrightarrow>
       (\<exists>mid r w1. trace (snd (RunConc n sched m)) = trace m @ [EvOnStart] @ mid @ [EvOnFinish r]
          \<and> filter is_start_finish mid = []
          \<and> length (pre_args mid) = length (Tasks (prog m))
          \<and> length (post_args mid) = length (Tasks (prog m))
          \<and> length r = length (Tasks (prog m))
          \<and> explains (prog m) ([EvOnStart] @ mid) (world m) w1
          \<and> world (snd (RunConc n sched m)) = snd (d r w1)
          \<and> fst (RunConc n sched m) = Inr (keep_length r (fst (d r w1)))))"
proof (intro impI conjI)
  assume h: "OnStart (prog m) = Some a \<and> PreHook (prog m) = Some b
     \<and> PostHook (prog m) = Some c \<and> OnFinish (prog m) = Some d"
  then have hs: "OnStart (prog m) = Some a" "PreHook (prog m) = Some b"
    "PostHook (prog m) = Some c" "OnFinish (prog m) = Some d"
    by simp_all
  show "\<exists>mid r w1. trace (snd (Run m)) = trace m @ [EvOnStart] @ mid @ [EvOnFinish r]
      \<and> filter is_start_finish mid = []
      \<and> length (pre_args mid) = length (Tasks (prog m))
      \<and> length (post_args mid) = length (Tasks (prog m))
      \<and> length r = length (Tasks (prog m))
      \<and> explains (prog m) ([EvOnStart] @ mid) (world m) w1
      \<and> world (snd (Run m)) = snd (d r w1)
      \<and> fst (Run m) = keep_length r (fst (d r w1))"
    using hs by (rule Run_all_hooks)
  assume "Tasks (prog m) \<noteq> [] \<or> n < 1"
  then have w: "1 \<le> safeRunnerQuantity n (int (length (Tasks (prog m))))"
    by (rule safeRunnerQuantity_pos)
  show "\<exists>mid r w1. trace (snd (RunConc n sched m)) = trace m @ [EvOnStart] @ mid @ [EvOnFinish r]
          \<and> filter is_start_finish mid = []
          \<and> length (pre_args mid) = length (Tasks (prog m))
          \<and> length (post_args mid) = length (Tasks (prog m))
          \<and> length r = length (Tasks (prog m))
          \<and> explains (prog m) ([EvOnStart] @ mid) (world m) w1
          \<and> world (snd (RunConc n sched m)) = snd (d r w1)
          \<and> fst (RunConc n sched m) = Inr (keep_length r (fst (d r w1)))"
    using hs w by (rule RunConc_all_hooks)
qed

theorem hooks_complete_witness:
  "OnStart (prog (start_mem example 0)) = Some (\<lambda>s. Suc s)
   \<and> PreHook (prog (start_mem example 0)) = Some (\<lambda>i s. Suc s)
   \<and> PostHook (prog (start_mem example 0)) = Some (\<lambda>i v s. Suc s)
   \<and> OnFinish (prog (start_mem example 0)) = Some (\<lambda>v s. (v, Suc s))
   \<and> Tasks (prog (start_mem example 0)) \<noteq> []
   \<and> (\<exists>mid r. trace (snd (Run (start_mem example 0))) = [EvOnStart] @ mid @ [EvOnFinish r]
        \<and> length (pre_args mid) = 5 \<and> length (post_args mid) = 5
        \<and> fst (Run (start_mem example 0)) = r)
   \<and> (\<exists>mid r. trace (snd (RunConc 3 [2, 0, 1, 1] (start_mem example 0)))
          = [EvOnStart] @ mid @ [EvOnFinish r]
        \<and> length (pre_args mid) = 5 \<and> length (post_args mid) = 5
        \<and> fst (RunConc 3 [2, 0, 1, 1] (start_mem example 0)) = Inr r)"
proof -
  let ?m = "start_mem example 0"
  have h: "OnStart (prog ?m) = Some (\<lambda>s. Suc s) \<and> PreHook (prog ?m) = Some (\<lambda>i s. Suc s)
     \<and> PostHook (prog ?m) = Some (\<lambda>i v s. Suc s) \<and> OnFinish (prog ?m) = Some (\<lambda>v s. (v, Suc s))"
    by (simp add: start_mem_def example_def)
  have ne: "Tasks (prog ?m) \<noteq> []"
    by (simp add: start_mem_def example_def tasks5_def)
  have L: "length (Tasks (prog ?m)) = 5" and t: "trace ?m = []"
    by (simp_all add: start_mem_def example_def tasks5_def)
  note hc = hooks_complete [of ?m "\<lambda>s. Suc s" "\<lambda>i s. Suc s" "\<lambda>i v s. Suc s" "\<lambda>v s. (v, Suc s)"
      3 "[2, 0, 1, 1]"]
  from hc h obtain mid r w1 where s:
      "trace (snd (Run ?m)) = trace ?m @ [EvOnStart] @ mid @ [EvOnFinish r]"
      "length (pre_args mid) = length (Tasks (prog ?m))"
      "length (post_args mid) = length (Tasks (prog ?m))"
      "fst (Run ?m) = keep_length r (fst (r, Suc w1))"
    by blast
  from hc h ne obtain mid' r' w1' where c:
      "trace (snd (RunConc 3 [2, 0, 1, 1] ?m)) = trace ?m @ [EvOnStart] @ mid' @ [EvOnFinish r']"
      "length (pre_args mid') = length (Tasks (prog ?m))"
      "length (post_args mid') = length (Tasks (prog ?m))"
      "fst (RunConc 3 [2, 0, 1, 1] ?m) = Inr (keep_length r' (fst (r', Suc w1')))"
    by blast
  have S: "\<exists>mid r. trace (snd (Run ?m)) = [EvOnStart] @ mid @ [EvOnFinish r]
        \<and> length (pre_args mid) = 5 \<and> length (post_args mid) = 5 \<and> fst (Run ?m) = r"
    using s unfolding L t by (intro exI [of _ mid] exI [of _ r]) simp
  have C: "\<exists>mid r. trace (snd (RunConc 3 [2, 0, 1, 1] ?m)) = [EvOnStart] @ mid @ [EvOnFinish r]
        \<and> length (pre_args mid) = 5 \<and> length (post_args mid) = 5
        \<and> fst (RunConc 3 [2, 0, 1, 1] ?m) = Inr r"
    using c unfolding L t by (intro exI [of _ mid'] exI [of _ r']) simp
  show ?thesis using h ne S C by blast
qed

text \<open>
  In both modes, for every program, every \<open>n\<close> and every schedule, also where \<open>RunConc\<close>
  panics: the events that the run appends to the trace explain the passage from the
  caller's world before the run to the world after it.
\<close>

theorem calls_are_made:
  "(\<exists>es. trace (snd (Run m)) = trace m @ es
      \<and> explains (prog m) es (world m) (world (snd (Run m))))
   \<and> (\<exists>es. trace (snd (RunConc n sched m)) = trace m @ es
      \<and> explains (prog m) es (world m) (world (snd (RunConc n sched m))))"
  using explained_Run [of m] explained_RunConc [of m n sched]
  unfolding explained_def by blast

text \<open>
  For pure tasks and an on-finish hook that keeps the results, and unless the task list
  is empty and \<open>n \<ge> 1\<close>, \<open>RunConc\<close> returns under every schedule the values of the tasks
  in task order, which is what \<open>Run\<close> returns.
\<close>

theorem RunConc_pure_is_Run:
  "list_all2 returns (Tasks (prog m)) vs \<and> keeps_results (prog m)
     \<and> (Tasks (prog m) \<noteq> [] \<or> n < 1) \<longrightarrow>
     fst (RunConc n sched m) = Inr vs \<and> fst (Run m) = vs"
proof
  assume h: "list_all2 returns (Tasks (prog m)) vs \<and> keeps_results (prog m)
     \<and> (Tasks (prog m) \<noteq> [] \<or> n < 1)"
  then have p: "list_all2 returns (Tasks (prog m)) vs" and k: "keeps_results (prog m)"
    by simp_all
  have w: "1 \<le> safeRunnerQuantity n (int (length (Tasks (prog m))))"
    using h by (intro safeRunnerQuantity_pos) simp
  show "fst (RunConc n sched m) = Inr vs \<and> fst (Run m) = vs"
    using RunConc_pure [OF p w k] p k
    by (simp add: Run_eq run_pure call_OnFinish_keeps run_prog)
qed

theorem RunConc_pure_is_Run_witness:
  "list_all2 returns (Tasks (prog (start_mem example 0)))
     [Some ''task0'', Some ''task1'', Some ''task2'', Some ''task3'', Some ''task4'']
   \<and> keeps_results (prog (start_mem example 0))
   \<and> Tasks (prog (start_mem example 0)) \<noteq> []
   \<and> fst (RunConc 3 [2, 0, 1, 1, 2, 2, 0] (start_mem example 0))
       = Inr [Some ''task0'', Some ''task1'', Some ''task2'', Some ''task3'', Some ''task4'']"
proof -
  have h: "list_all2 returns (Tasks (prog (start_mem example 0)))
     [Some ''task0'', Some ''task1'', Some ''task2'', Some ''task3'', Some ''task4'']"
    "Tasks (prog (start_mem example 0)) \<noteq> []"
    by (simp_all add: start_mem_def example_def tasks5_def returns_def)
  have k: "keeps_results (prog (start_mem example 0))"
    by (simp add: start_mem_def keeps_results_example)
  show ?thesis
    using h k RunConc_pure_is_Run [of "start_mem example 0"
        "[Some ''task0'', Some ''task1'', Some ''task2'', Some ''task3'', Some ''task4'']"
        3 "[2, 0, 1, 1, 2, 2, 0]"]
    by blast
qed

text \<open>
  With all hooks configured, and unless the task list is empty and \<open>n \<ge> 1\<close>: under every
  schedule, the pre-task hook and the post-task hook are called in \<open>RunConc\<close> with,
  for every runner \<open>k\<close> and every index \<open>j\<close> of its zone, the argument \<open>j + k\<close>; in \<open>Run\<close>
  they are called with 0, 1, ..., \<open>L - 1\<close> in this order.
\<close>

theorem RunConc_hook_args:
  "OnStart (prog m) = Some a \<and> PreHook (prog m) = Some b
     \<and> PostHook (prog m) = Some c \<and> OnFinish (prog m) = Some d
     \<and> (Tasks (prog m) \<noteq> [] \<or> n < 1) \<longrightarrow>
   (\<exists>mid r. trace (snd (RunConc n sched m)) = trace m @ [EvOnStart] @ mid @ [EvOnFinish r]
      \<and> mset (pre_args mid)
          = conc_hook_args (Tasks (prog m)) (safeRunnerQuantity n (int (length (Tasks (prog m)))))
      \<and> mset (post_args mid)
          = conc_hook_args (Tasks (prog m)) (safeRunnerQuantity n (int (length (Tasks (prog m))))))
   \<and> (\<exists>mid r. trace (snd (Run m)) = trace m @ [EvOnStart] @ mid @ [EvOnFinish r]
      \<and> pre_args mid = map int [0..<length (Tasks (prog m))]
      \<and> post_args mid = map int [0..<length (Tasks (prog m))])"
proof (intro impI conjI)
  assume h: "OnStart (prog m) = Some a \<and> PreHook (prog m) = Some b
     \<and> PostHook (prog m) = Some c \<and> OnFinish (prog m) = Some d
     \<and> (Tasks (prog m) \<noteq> [] \<or> n < 1)"
  then have hs: "OnStart (prog m) = Some a" "PreHook (prog m) = Some b"
    "PostHook (prog m) = Some c" "OnFinish (prog m) = Some d"
    by simp_all
  have w: "1 \<le> safeRunnerQuantity n (int (length (Tasks (prog m))))"
    using h by (intro safeRunnerQuantity_pos) simp
  show "\<exists>mid r. trace (snd (RunConc n sched m)) = trace m @ [EvOnStart] @ mid @ [EvOnFinish r]
      \<and> mset (pre_args mid)
          = conc_hook_args (Tasks (prog m)) (safeRunnerQuantity n (int (length (Tasks (prog m)))))
      \<and> mset (post_args mid)
          = conc_hook_args (Tasks (prog m)) (safeRunnerQuantity n (int (length (Tasks (prog m)))))"
    using RunConc_trace_args [OF hs w, where sched = sched] by blast
  show "\<exists>mid r. trace (snd (Run m)) = trace m @ [EvOnStart] @ mid @ [EvOnFinish r]
      \<and> pre_args mid = map int [0..<length (Tasks (prog m))]
      \<and> post_args mid = map int [0..<length (Tasks (prog m))]"
    using Run_trace_hooks [OF hs] by blast
qed

theorem RunConc_hook_args_witness:
  "OnStart (prog (start_mem example 0)) = Some (\<lambda>s. Suc s)
   \<and> PreHook (prog (start_mem example 0)) = Some (\<lambda>i s. Suc s)
   \<and> PostHook (prog (start_mem example 0)) = Some (\<lambda>i v s. Suc s)
   \<and> OnFinish (prog (start_mem example 0)) = Some (\<lambda>v s. (v, Suc s))
   \<and> Tasks (prog (start_mem example 0)) \<noteq> []
   \<and> (\<exists>mid r. trace (snd (RunConc 2 [1, 0, 1] (start_mem example 0)))
          = trace (start_mem example 0) @ [EvOnStart] @ mid @ [EvOnFinish r]
        \<and> mset (pre_args mid) = conc_hook_args tasks5 2)"
proof -
  let ?m = "start_mem example 0"
  have h: "OnStart (prog ?m) = Some (\<lambda>s. Suc s)" "PreHook (prog ?m) = Some (\<lambda>i s. Suc s)"
    "PostHook (prog ?m) = Some (\<lambda>i v s. Suc s)" "OnFinish (prog ?m) = Some (\<lambda>v s. (v, Suc s))"
    "Tasks (prog ?m) \<noteq> []"
    by (simp_all add: start_mem_def example_def tasks5_def)
  have ts: "Tasks (prog ?m) = tasks5" by (simp add: start_mem_def example_def)
  have w: "safeRunnerQuantity 2 (int (length tasks5)) = 2"
    by (simp add: safeRunnerQuantity_def tasks5_def)
  have "\<exists>mid r. trace (snd (RunConc 2 [1, 0, 1] ?m)) = trace ?m @ [EvOnStart] @ mid @ [EvOnFinish r]
      \<and> mset (pre_args mid)
          = conc_hook_args (Tasks (prog ?m)) (safeRunnerQuantity 2 (int (length (Tasks (prog ?m)))))
      \<and> mset (post_args mid)
          = conc_hook_args (Tasks (prog ?m)) (safeRunnerQuantity 2 (int (length (Tasks (prog ?m)))))"
    using h RunConc_hook_args [of ?m "\<lambda>s. Suc s" "\<lambda>i s. Suc s" "\<lambda>i v s. Suc s" "\<lambda>v s. (v, Suc s)" 2 "[1, 0, 1]"]
    by blast
  then have "\<exists>mid r. trace (snd (RunConc 2 [1, 0, 1] ?m)) = trace ?m @ [EvOnStart] @ mid @ [EvOnFinish r]
      \<and> mset (pre_args mid) = conc_hook_args tasks5 2"
    unfolding ts w by blast
  with h show ?thesis by blast
qed

end
